theory Spec2Isabelle
  imports Complex_Main "HOL-Library.List_Lexorder" "HOL-Library.Char_ord"
begin

section \<open>The synchronisation engine of app/core/sync.js\<close>

text \<open>
  The class \<open>Sync\<close> keeps the remote file records (\<open>fileInfo\<close>), the reverse index from
  local paths to remote ids (\<open>paths\<close>), a short-lived memo of parent records
  (\<open>parentInfoCache\<close>), the change token and the pending changes.  Its methods are
  \<open>async\<close>; here each one is a function from a world to an outcome and a new world.
  What Node, fs-extra, the watcher, the database and the Drive client do is not code of
  sync.js: it is taken as a parameter (\<open>env\<close>), so every theorem holds for any behaviour
  of theirs.  Strings compare as JavaScript compares them (lexicographically, code unit by
  code unit), which is the order of \<open>HOL-Library.List_Lexorder\<close> on \<open>char list\<close>.
\<close>

subsection \<open>Data\<close>

text \<open>An exception is told apart by its \<open>code\<close>: a number (404) or a name (ECONNRESET).\<close>

datatype error = HttpError nat | SysError string | TypeError

text \<open>
  The outcome of an \<open>async\<close> method: it returns, it throws, or it never settles
  (\<open>Diverge\<close>, also the answer of a walk that ran out of fuel).
\<close>

datatype 'a outcome = Return 'a | Throw error | Diverge

text \<open>
  A file record, with the fields of \<open>fileInfoFields\<close>.  \<open>md5Checksum\<close>, \<open>size\<close> and
  \<open>parents\<close> may be absent (\<open>None\<close>); \<open>id\<close> and \<open>size\<close> carry a suffix since HOL has
  constants of these names.
\<close>

record file_info =
  id_fi :: string
  name :: string
  mimeType :: string
  md5Checksum :: "string option"
  size_fi :: "nat option"
  modifiedTime :: string
  parents :: "string list option"
  trashed :: bool

text \<open>A change of the feed (\<open>changeInfoFields\<close>); a removal carries no \<open>file\<close> (the field is \<open>file_ch\<close> here: \<open>file\<close> is a keyword).\<close>

record change =
  removed :: bool
  fileId :: string
  file_ch :: "file_info option"

subsection \<open>Pure helpers\<close>

text \<open>
  \<open>deepEqual\<close> of the package deep-equal, on the values it is given here (absent, or an
  array of strings): the same length and the same elements in the same order.
\<close>

definition deepEqual :: "'a \<Rightarrow> 'a \<Rightarrow> bool" where
  "deepEqual a b = (a = b)"

text \<open>\<open>s.includes(t)\<close>: \<open>t\<close> occurs in \<open>s\<close> as a contiguous substring.\<close>

fun includes_str :: "string \<Rightarrow> string \<Rightarrow> bool" where
  "includes_str [] t = (t = [])"
| "includes_str (c # s) t = (take (length t) (c # s) = t \<or> includes_str s t)"

definition isFolder :: "file_info \<Rightarrow> bool" where
  "isFolder fileInfo = includes_str (mimeType fileInfo) ''folder''"

definition noChange :: "file_info \<Rightarrow> file_info \<Rightarrow> bool" where
  "noChange oldInfo newInfo =
     (if modifiedTime newInfo > modifiedTime oldInfo then False
      else if name oldInfo \<noteq> name newInfo then False
      else if \<not> deepEqual (parents oldInfo) (parents newInfo) then False
      else True)"

text \<open>The set of parents of a record; a record without the field has none.\<close>

definition parent_set :: "file_info \<Rightarrow> string set" where
  "parent_set fileInfo = (case parents fileInfo of None \<Rightarrow> {} | Some ps \<Rightarrow> set ps)"

text \<open>Two records of one file whose parents are the same two folders, listed in another order.\<close>

definition c8_old :: file_info where
  "c8_old = \<lparr>id_fi = ''f1'', name = ''a.txt'', mimeType = ''text/plain'',
     md5Checksum = Some ''h1'', size_fi = Some 3, modifiedTime = ''2024-01-01T00:00:00.000Z'',
     parents = Some [''p1'', ''p2''], trashed = False\<rparr>"

definition c8_new :: file_info where
  "c8_new = c8_old\<lparr>parents := Some [''p2'', ''p1'']\<rparr>"

subsection \<open>The world: the Sync object and what lies outside it\<close>

text \<open>
  Calls that change the local disk.  \<open>Remove\<close> is fs-extra's \<open>remove\<close>, \<open>Rename\<close> is
  \<open>fs.rename\<close>, \<open>Copy\<close> is fs-extra's \<open>copy\<close>, \<open>Mkdirp\<close> is mkdirp-promise.
\<close>

datatype fs_op = Remove string | Rename string string | Copy string string | Mkdirp string

text \<open>
  What the engine does to the outside, in the order it does it: a call of
  \<open>watcher.ignore\<close>, a disk call that succeeded or threw, a content download piped into
  a file (completed or failed), an event emitted upward, a sleep of the poller.
\<close>

datatype event =
    Ignore string
  | Done fs_op
  | Failed fs_op
  | Downloaded string string
  | DownloadFailed string string
  | Emit_syncing bool
  | Emit_filesChanged "(string \<times> nat) list"
  | Sleep rat

text \<open>One page of \<open>drive.changes.list\<close> (\<open>changesListFields\<close>).\<close>

record changes_page =
  nextPageToken :: "string option"
  newStartPageToken :: "string option"
  changes :: "change list"

text \<open>The document \<open>save\<close> writes (\<open>toSave\<close>).\<close>

record checkpoint =
  ck_changeToken :: "string option"
  ck_fileInfo :: "string \<rightharpoonup> file_info"
  ck_synced :: bool
  ck_rootId :: "string option"
  ck_changesToExecute :: "change list option"
  ck_onLocalDrive :: "string set"

text \<open>
  The fields of the \<open>Sync\<close> object, then the outside: the disk (of an abstract type
  \<open>'d\<close>), the log of events, the number of requests made so far to the Drive service and
  to the database, and the documents written to the database, oldest first.
  \<open>onLocalDrive\<close> is keyed by the base64 encoding of a path in the source; the encoding is
  injective, so the set of paths stands for it.  \<open>lastChanges\<close> is an object of counters,
  kept as an association list.  Fields that are only written (\<open>lastChangesUpdated\<close>), the
  log output, and the re-entry guards \<open>loaded\<close>, \<open>loading\<close>, \<open>saving\<close> and
  \<open>watchingChanges\<close> are left out: the engine is taken as loaded, with one poller
  running and no save in flight.
\<close>

record 'd world =
  fileInfo :: "string \<rightharpoonup> file_info"
  paths :: "string \<rightharpoonup> string"
  onLocalDrive :: "string set"
  parentInfoCache :: "string \<rightharpoonup> file_info"
  rootId :: "string option"
  folder :: string
  changeToken :: "string option"
  changesToExecute :: "change list option"
  closed :: bool
  syncing :: bool
  synced :: bool
  lastChanges :: "(string \<times> nat) list"
  changesSinceSave :: nat
  savedTime :: nat
  handlingRemoteChange :: bool
  handlingLocalChange :: bool
  sync_id :: bool
  disk :: 'd
  events :: "event list"
  requests :: nat
  db :: "checkpoint list"

text \<open>
  What sync.js calls and does not define.  The Drive service and the database answer the
  \<open>n\<close>-th request made to them, so that a retry may get another answer than the first
  try.  A disk call either fails and leaves the disk as it was, or gives the new disk.
  A download pipes what it receives into the temporary file, and may fail half-way.
  \<open>clock\<close> is \<open>Date.now()\<close>, read after \<open>n\<close> requests.
\<close>

record 'd env =
  path_join :: "string \<Rightarrow> string \<Rightarrow> string"
  path_dirname :: "string \<Rightarrow> string"
  fs_access :: "string \<Rightarrow> 'd \<Rightarrow> bool"
  md5file :: "string \<Rightarrow> 'd \<Rightarrow> error + string"
  fs_call :: "fs_op \<Rightarrow> 'd \<Rightarrow> error + 'd"
  drive_files_get :: "nat \<Rightarrow> string \<Rightarrow> error + file_info"
  drive_files_get_media :: "nat \<Rightarrow> string \<Rightarrow> string \<Rightarrow> 'd \<Rightarrow> error option \<times> 'd"
  drive_changes_list :: "nat \<Rightarrow> string \<Rightarrow> error + changes_page"
  drive_getStartPageToken :: "nat \<Rightarrow> error + string"
  globals_db_insert :: "nat \<Rightarrow> error option"
  globals_db_update :: "nat \<Rightarrow> error option"
  clock :: "nat \<Rightarrow> nat"

subsection \<open>Sequencing of async code\<close>

type_synonym ('a, 'd) prog = "'d world \<Rightarrow> 'a outcome \<times> 'd world"

definition ret :: "'a \<Rightarrow> ('a, 'd) prog" where
  "ret x = (\<lambda>w. (Return x, w))"

definition throw :: "error \<Rightarrow> ('a, 'd) prog" where
  "throw e = (\<lambda>w. (Throw e, w))"

definition diverge :: "('a, 'd) prog" where
  "diverge = (\<lambda>w. (Diverge, w))"

text \<open>Reading the object and the disk, and writing the object.\<close>

definition gets :: "('d world \<Rightarrow> 'a) \<Rightarrow> ('a, 'd) prog" where
  "gets f = (\<lambda>w. (Return (f w), w))"

definition modify :: "('d world \<Rightarrow> 'd world) \<Rightarrow> (unit, 'd) prog" where
  "modify g = (\<lambda>w. (Return (), g w))"

text \<open>\<open>await m\<close>, then the rest: an exception or a promise that never settles ends it.\<close>

definition bnd :: "('a, 'd) prog \<Rightarrow> ('a \<Rightarrow> ('b, 'd) prog) \<Rightarrow> ('b, 'd) prog" where
  "bnd m f = (\<lambda>w. case m w of
       (Return x, w') \<Rightarrow> f x w'
     | (Throw e, w') \<Rightarrow> (Throw e, w')
     | (Diverge, w') \<Rightarrow> (Diverge, w'))"

text \<open>\<open>try { m } catch (err) { h err }\<close>.\<close>

definition try_catch :: "('a, 'd) prog \<Rightarrow> (error \<Rightarrow> ('a, 'd) prog) \<Rightarrow> ('a, 'd) prog" where
  "try_catch m h = (\<lambda>w. case m w of
       (Throw e, w') \<Rightarrow> h e w'
     | (Return x, w') \<Rightarrow> (Return x, w')
     | (Diverge, w') \<Rightarrow> (Diverge, w'))"

text \<open>
  A promise inside an event handler whose rejection nobody handles: whoever waits for the
  handler to call \<open>resolve\<close> waits for ever.
\<close>

definition unhandled :: "('a, 'd) prog \<Rightarrow> ('a, 'd) prog" where
  "unhandled m = (\<lambda>w. case m w of
       (Return x, w') \<Rightarrow> (Return x, w')
     | (Throw e, w') \<Rightarrow> (Diverge, w')
     | (Diverge, w') \<Rightarrow> (Diverge, w'))"

text \<open>A \<open>for\<close> loop with an \<open>await\<close> in its body, collecting what each round yields.\<close>

fun mapM :: "('a \<Rightarrow> ('b, 'd) prog) \<Rightarrow> 'a list \<Rightarrow> ('b list, 'd) prog" where
  "mapM f [] = ret []"
| "mapM f (x # xs) = bnd (f x) (\<lambda>y. bnd (mapM f xs) (\<lambda>ys. ret (y # ys)))"

definition tryTwice :: "('a, 'd) prog \<Rightarrow> ('a, 'd) prog" where
  "tryTwice fn = try_catch fn (\<lambda>err. if err \<noteq> SysError ''ECONNRESET'' then throw err else fn)"

subsection \<open>Calls to the outside\<close>

definition ignore :: "string \<Rightarrow> (unit, 'd) prog" where
  "ignore p = modify (\<lambda>w. w\<lparr>events := events w @ [Ignore p]\<rparr>)"

definition fs_do :: "'d env \<Rightarrow> fs_op \<Rightarrow> (unit, 'd) prog" where
  "fs_do env op = (\<lambda>w. case fs_call env op (disk w) of
       Inl e \<Rightarrow> (Throw e, w\<lparr>events := events w @ [Failed op]\<rparr>)
     | Inr d \<Rightarrow> (Return (), w\<lparr>disk := d, events := events w @ [Done op]\<rparr>))"

definition files_get :: "'d env \<Rightarrow> string \<Rightarrow> (file_info, 'd) prog" where
  "files_get env fid = (\<lambda>w.
     (case drive_files_get env (requests w) fid of Inl e \<Rightarrow> Throw e | Inr r \<Rightarrow> Return r,
      w\<lparr>requests := Suc (requests w)\<rparr>))"

text \<open>\<open>drive.files.get\<close> with \<open>alt: "media"\<close>, piped into the write stream on \<open>tmpFile\<close>.\<close>

definition media_get :: "'d env \<Rightarrow> string \<Rightarrow> string \<Rightarrow> (unit, 'd) prog" where
  "media_get env fid tmpFile = (\<lambda>w.
     case drive_files_get_media env (requests w) fid tmpFile (disk w) of
       (Some err, d) \<Rightarrow>
         (Throw err, w\<lparr>disk := d, requests := Suc (requests w),
                       events := events w @ [DownloadFailed fid tmpFile]\<rparr>)
     | (None, d) \<Rightarrow>
         (Return (), w\<lparr>disk := d, requests := Suc (requests w),
                       events := events w @ [Downloaded fid tmpFile]\<rparr>))"

definition changes_list :: "'d env \<Rightarrow> string \<Rightarrow> (changes_page, 'd) prog" where
  "changes_list env pageToken = (\<lambda>w.
     (case drive_changes_list env (requests w) pageToken of Inl e \<Rightarrow> Throw e | Inr r \<Rightarrow> Return r,
      w\<lparr>requests := Suc (requests w)\<rparr>))"

definition db_call :: "(nat \<Rightarrow> error option) \<Rightarrow> (unit, 'd) prog" where
  "db_call f = (\<lambda>w.
     (case f (requests w) of Some e \<Rightarrow> Throw e | None \<Rightarrow> Return (),
      w\<lparr>requests := Suc (requests w)\<rparr>))"

subsection \<open>A JavaScript Map, in insertion order\<close>

fun map_set :: "('k \<times> 'v) list \<Rightarrow> 'k \<Rightarrow> 'v \<Rightarrow> ('k \<times> 'v) list" where
  "map_set [] k v = [(k, v)]"
| "map_set ((k', v') # m) k v = (if k' = k then (k, v) # m else (k', v') # map_set m k v)"

definition map_has :: "('k \<times> 'v) list \<Rightarrow> 'k \<Rightarrow> bool" where
  "map_has m k = (map_of m k \<noteq> None)"

subsection \<open>Metadata cache, batch fetcher and path materialiser\<close>

definition needsParentFetch :: "'d world \<Rightarrow> string \<Rightarrow> bool" where
  "needsParentFetch w parentId = (parentInfoCache w parentId = None \<and> fileInfo w parentId = None)"

text \<open>
  \<open>batchResults.forEach((parentInfo, parentId) => { if (parentInfo) parentInfoCache.set(...) })\<close>
\<close>

definition cache_batch :: "(string \<times> file_info option) list \<Rightarrow> 'd world \<Rightarrow> 'd world" where
  "cache_batch batchResults w =
     w\<lparr>parentInfoCache :=
          fold (\<lambda>(parentId, parentInfo) c. case parentInfo of None \<Rightarrow> c | Some r \<Rightarrow> c(parentId \<mapsto> r))
               batchResults (parentInfoCache w)\<rparr>"

definition cache_parent :: "string \<Rightarrow> file_info option \<Rightarrow> 'd world \<Rightarrow> 'd world" where
  "cache_parent parent parentInfo w =
     (case parentInfo of
        None \<Rightarrow> w
      | Some r \<Rightarrow> w\<lparr>parentInfoCache := (parentInfoCache w)(parent \<mapsto> r)\<rparr>)"

text \<open>
  The blocks of the methods below that call no method of the walk themselves; the method
  they await is handed to them.  \<open>prefetchParents\<close> is the batch prefetch at the head of
  \<open>getPaths\<close>, \<open>resolveParent\<close> the three-tier lookup of one parent in its loop (side
  cache, then metadata cache, then a single fetch).
\<close>

definition prefetchParents ::
  "(string list \<Rightarrow> ((string \<times> file_info option) list, 'd) prog) \<Rightarrow> string list \<Rightarrow> (unit, 'd) prog" where
  "prefetchParents getBatch ps =
     bnd (gets (\<lambda>w. filter (needsParentFetch w) ps))
         (\<lambda>parentsToFetch.
            if parentsToFetch \<noteq> []
            then bnd (getBatch parentsToFetch) (\<lambda>batchResults. modify (cache_batch batchResults))
            else ret ())"

definition resolveParent ::
  "(string \<Rightarrow> (file_info option, 'd) prog) \<Rightarrow> string \<Rightarrow> (file_info option, 'd) prog" where
  "resolveParent getInfo parent =
     bnd (gets (\<lambda>w. parentInfoCache w parent))
         (\<lambda>cached. case cached of
            Some parentInfo \<Rightarrow> ret (Some parentInfo)
          | None \<Rightarrow>
             bnd (gets (\<lambda>w. fileInfo w parent))
                 (\<lambda>known. case known of
                    Some parentInfo \<Rightarrow>
                      bnd (modify (cache_parent parent (Some parentInfo)))
                          (\<lambda>_. ret (Some parentInfo))
                  | None \<Rightarrow>
                      bnd (getInfo parent)
                          (\<lambda>parentInfo. bnd (modify (cache_parent parent parentInfo))
                                              (\<lambda>_. ret parentInfo))))"

text \<open>
  One of the \<open>fetchPromises\<close> of \<open>getFileInfoBatch\<close>: it always fulfils, with the id, the
  record or null, and the flag \<open>success\<close>.
\<close>

definition fetchPromise ::
  "(string \<Rightarrow> (file_info option, 'd) prog) \<Rightarrow> string \<Rightarrow> (string \<times> file_info option \<times> bool, 'd) prog" where
  "fetchPromise getInfo fileId' =
     try_catch (bnd (getInfo fileId') (\<lambda>fi. ret (fileId', fi, True)))
               (\<lambda>err. if err = HttpError 404 then ret (fileId', None, True)
                       else ret (fileId', None, False))"

text \<open>
  The results map of \<open>getFileInfoBatch\<close> once the fetches have settled: the successful
  ones, then the requested ids that are in \<open>fileInfo\<close> and not yet in the map.
\<close>

definition batch_results ::
  "string list \<Rightarrow> (string \<times> file_info option \<times> bool) list \<Rightarrow> 'd world \<Rightarrow> (string \<times> file_info option) list" where
  "batch_results fileIds settledResults w =
     (let results = fold (\<lambda>(fileId', fi, success) results.
                            if success then map_set results fileId' fi else results)
                         settledResults []
      in fold (\<lambda>i results.
                 if \<not> map_has results i \<and> fileInfo w i \<noteq> None
                 then map_set results i (fileInfo w i) else results)
              fileIds results)"

text \<open>The request of \<open>getFileInfo\<close>, with its retry and its \<open>catch\<close>: a 404 gives null.\<close>

definition fetch_remote :: "'d env \<Rightarrow> string \<Rightarrow> (file_info option, 'd) prog" where
  "fetch_remote env fileId' =
     try_catch (bnd (tryTwice (files_get env fileId')) (\<lambda>fi. ret (Some fi)))
               (\<lambda>err. if err = HttpError 404 then ret None else throw err)"

text \<open>
  The end of \<open>storeFileInfo\<close>: drop the side-cache entries of the record's parents, then
  \<open>this.fileInfo[info.id] = info\<close>.
\<close>

definition store_record :: "file_info \<Rightarrow> 'd world \<Rightarrow> 'd world" where
  "store_record info w =
     (let w1 = w\<lparr>parentInfoCache :=
                   (case parents info of
                      None \<Rightarrow> parentInfoCache w
                    | Some ps \<Rightarrow> fold (\<lambda>parent c. c(parent := None)) ps (parentInfoCache w))\<rparr>
      in w1\<lparr>fileInfo := (fileInfo w1)(id_fi info \<mapsto> info)\<rparr>)"

text \<open>\<open>for (let path of ...) this.paths[path] = info.id\<close>\<close>

definition index_paths :: "file_info \<Rightarrow> string list \<Rightarrow> 'd world \<Rightarrow> 'd world" where
  "index_paths info ps w = w\<lparr>paths := fold (\<lambda>p m. m(p \<mapsto> id_fi info)) ps (paths w)\<rparr>"

text \<open>
  \<open>getPaths\<close>, \<open>getFileInfoBatch\<close>, \<open>getFileInfo\<close>, \<open>storeFileInfo\<close> and \<open>computePaths\<close>
  (with a record) call one another, and the walk up the parents ends only if the parents
  do: the remote may answer with a cycle.  The first argument after \<open>env\<close> is fuel, one unit
  for each nested call; without fuel the outcome is \<open>Diverge\<close>.  The fetches of a batch
  are started together in the source and run here one after the other, in the order of the
  ids.  \<open>getFileInfo\<close> is never called with \<open>forceUpdate\<close>; its \<open>try\<close> block returns the
  promise of \<open>storeFileInfo\<close> without awaiting it, so its \<open>catch\<close> sees only what the
  request throws.
\<close>

fun getPaths :: "'d env \<Rightarrow> nat \<Rightarrow> file_info option \<Rightarrow> (string list, 'd) prog"
and getFileInfoBatch :: "'d env \<Rightarrow> nat \<Rightarrow> string list \<Rightarrow> ((string \<times> file_info option) list, 'd) prog"
and getFileInfo :: "'d env \<Rightarrow> nat \<Rightarrow> string \<Rightarrow> (file_info option, 'd) prog"
and storeFileInfo :: "'d env \<Rightarrow> nat \<Rightarrow> file_info \<Rightarrow> (file_info, 'd) prog"
and computePaths :: "'d env \<Rightarrow> nat \<Rightarrow> file_info \<Rightarrow> (unit, 'd) prog"
where
  "getPaths env 0 fileInfo' = diverge"
| "getPaths env (Suc n) None = ret []"
| "getPaths env (Suc n) (Some fi) =
     bnd (gets rootId)
       (\<lambda>root. if Some (id_fi fi) = root then gets (\<lambda>w. [folder w])
          else case parents fi of
            None \<Rightarrow> ret []
          | Some ps \<Rightarrow>
              bnd (prefetchParents (\<lambda>ids. getFileInfoBatch env n ids) ps)
              (\<lambda>_. bnd (mapM (\<lambda>parent.
                       bnd (resolveParent (\<lambda>i. getFileInfo env n i) parent)
                           (\<lambda>parentInfo. bnd (getPaths env n parentInfo)
                              (\<lambda>parentPaths. ret (map (\<lambda>parentPath. path_join env parentPath (name fi)) parentPaths))))
                     ps)
                   (\<lambda>rets. ret (concat rets))))"
| "getFileInfoBatch env 0 fileIds = diverge"
| "getFileInfoBatch env (Suc n) fileIds =
     bnd (gets (\<lambda>w. filter (\<lambda>i. fileInfo w i = None) fileIds))
       (\<lambda>idsToFetch.
          if idsToFetch = []
          then gets (\<lambda>w. fold (\<lambda>i results. map_set results i (fileInfo w i)) fileIds [])
          else bnd (mapM (\<lambda>i. fetchPromise (\<lambda>j. getFileInfo env n j) i) idsToFetch)
                   (\<lambda>settledResults. gets (batch_results fileIds settledResults)))"
| "getFileInfo env 0 fileId' = diverge"
| "getFileInfo env (Suc n) fileId' =
     bnd (gets (\<lambda>w. fileInfo w fileId'))
       (\<lambda>cached. case cached of
          Some fi \<Rightarrow> ret (Some fi)
        | None \<Rightarrow>
            bnd (fetch_remote env fileId')
                (\<lambda>fetched. case fetched of
                   None \<Rightarrow> ret None
                 | Some fi \<Rightarrow> bnd (storeFileInfo env n fi) (\<lambda>r. ret (Some r))))"
| "storeFileInfo env 0 info = diverge"
| "storeFileInfo env (Suc n) info =
     bnd (computePaths env n info) (\<lambda>_. bnd (modify (store_record info)) (\<lambda>_. ret info))"
| "computePaths env 0 info = diverge"
| "computePaths env (Suc n) info =
     bnd (getPaths env n (Some info)) (\<lambda>ps. modify (index_paths info ps))"

subsection \<open>Reconciler: removal, download, path delta\<close>

text \<open>
  The loop of \<open>removeFileLocally\<close> over the paths; \<open>removed\<close> is its flag.  The \<open>try\<close>
  block ends at the first call that throws, and the \<open>catch\<close> is empty.
\<close>

fun removeEach :: "'d env \<Rightarrow> string list \<Rightarrow> bool \<Rightarrow> (bool, 'd) prog" where
  "removeEach env [] removed' = ret removed'"
| "removeEach env (p # ps) removed' =
     bnd (try_catch
            (bnd (gets (\<lambda>w. fs_access env p (disk w)))
               (\<lambda>accessible. if \<not> accessible then ret removed'
                  else bnd (ignore p) (\<lambda>_. bnd (fs_do env (Remove p)) (\<lambda>_. ret True))))
            (\<lambda>err. ret removed'))
         (\<lambda>removed''. removeEach env ps removed'')"

text \<open>\<open>delete this.fileInfo[fileId]; paths.forEach(path => delete this.paths[path])\<close>\<close>

definition forget :: "string \<Rightarrow> string list \<Rightarrow> 'd world \<Rightarrow> 'd world" where
  "forget fileId' ps w =
     w\<lparr>fileInfo := (fileInfo w)(fileId' := None),
       paths := fold (\<lambda>p m. m(p := None)) ps (paths w)\<rparr>"

definition removeFileLocally :: "'d env \<Rightarrow> nat \<Rightarrow> string \<Rightarrow> (bool, 'd) prog" where
  "removeFileLocally env n fileId' =
     bnd (gets (\<lambda>w. fileInfo w fileId'))
       (\<lambda>known. case known of
          None \<Rightarrow> ret False
        | Some fi \<Rightarrow>
            bnd (getPaths env n (Some fi))
              (\<lambda>ps. bnd (modify (forget fileId' ps))
                 (\<lambda>_. if ps = [] then ret False else removeEach env ps False)))"

definition shouldIgnoreFile :: "'d world \<Rightarrow> file_info \<Rightarrow> bool" where
  "shouldIgnoreFile w fi =
     (if Some (id_fi fi) = rootId w then True
      else if isFolder fi then False
      else size_fi fi = None)"

text \<open>
  One try of the download in \<open>downloadFile\<close>: the promise resolves after the rename in the
  \<open>end\<close> handler and rejects on the \<open>error\<close> event.  The rename is awaited inside the
  handler only, so if it throws the promise never settles.  The write stream on the
  temporary file is part of what \<open>drive_files_get_media\<close> does to the disk.
\<close>

definition download_once :: "'d env \<Rightarrow> file_info \<Rightarrow> string \<Rightarrow> string \<Rightarrow> (unit, 'd) prog" where
  "download_once env fi tmpFile savePath =
     bnd (ignore savePath)
       (\<lambda>_. bnd (media_get env (id_fi fi) tmpFile)
       (\<lambda>_. unhandled (fs_do env (Rename tmpFile savePath))))"

text \<open>
  The download as \<open>downloadFile\<close> awaits it: each try removes the temporary file when it
  fails and throws the error again, and \<open>tryTwice\<close> tries once more after a connection
  reset.
\<close>

definition download_guarded :: "'d env \<Rightarrow> file_info \<Rightarrow> string \<Rightarrow> string \<Rightarrow> (unit, 'd) prog" where
  "download_guarded env fi tmpFile savePath =
     tryTwice (try_catch (download_once env fi tmpFile savePath)
                 (\<lambda>err. bnd (fs_do env (Remove tmpFile)) (\<lambda>_. throw err)))"

text \<open>The last loop of \<open>downloadFile\<close>: a copy of \<open>savePath\<close> at every other path.\<close>

definition copy_others :: "'d env \<Rightarrow> string \<Rightarrow> string list \<Rightarrow> (unit list, 'd) prog" where
  "copy_others env savePath otherPaths =
     mapM (\<lambda>otherPath. bnd (ignore otherPath) (\<lambda>_. fs_do env (Copy savePath otherPath)))
          otherPaths"

text \<open>
  The part of \<open>downloadFile\<close> for a record that is not a folder, once its paths are known:
  \<open>savePath\<close> is the first of them (\<open>savePaths.shift()\<close>), \<open>otherPaths\<close> the rest.
\<close>

definition download_content :: "'d env \<Rightarrow> file_info \<Rightarrow> string \<Rightarrow> string list \<Rightarrow> (bool, 'd) prog" where
  "download_content env fi savePath otherPaths =
     bnd (fs_do env (Mkdirp (path_dirname env savePath)))
       (\<lambda>_. bnd (gets (\<lambda>w. fs_access env savePath (disk w) \<and>
                            (case md5file env savePath (disk w) of
                               Inl e \<Rightarrow> False
                             | Inr h \<Rightarrow> Some h = md5Checksum fi)))
       (\<lambda>alreadyDownloaded.
          bnd (if \<not> alreadyDownloaded
               then bnd (gets (\<lambda>w. path_join env (folder w) (''.'' @ name fi @ ''.tmp'')))
                        (\<lambda>tmpFile. download_guarded env fi tmpFile savePath)
               else ret ())
          (\<lambda>_. bnd (copy_others env savePath otherPaths)
          (\<lambda>_. ret True))))"

definition downloadFile :: "'d env \<Rightarrow> nat \<Rightarrow> file_info \<Rightarrow> (bool, 'd) prog" where
  "downloadFile env n fi =
     bnd (gets (\<lambda>w. shouldIgnoreFile w fi))
       (\<lambda>ignored. if ignored then ret False
          else bnd (getPaths env n (Some fi))
            (\<lambda>savePaths. case savePaths of
               [] \<Rightarrow> ret False
             | savePath # otherPaths \<Rightarrow>
                 if isFolder fi
                 then bnd (mapM (\<lambda>p. bnd (ignore p) (\<lambda>_. fs_do env (Mkdirp p))) savePaths)
                          (\<lambda>_. ret True)
                 else download_content env fi savePath otherPaths))"

text \<open>
  \<open>addFileLocally\<close>; its call \<open>logChange({type: "added", number: 1})\<close> passes no second
  argument, so it counts nothing.
\<close>

definition addFileLocally :: "'d env \<Rightarrow> nat \<Rightarrow> file_info \<Rightarrow> (bool, 'd) prog" where
  "addFileLocally env n fi =
     bnd (storeFileInfo env n fi) (\<lambda>_. bnd (downloadFile env n fi) (\<lambda>res. ret res))"

text \<open>
  \<open>changePaths\<close>.  Its two index loops run over \<open>[0..<length removedPaths]\<close> and
  \<open>[length removedPaths..<length addedPaths]\<close>; \<open>newPaths[0]\<close> is read only inside the
  second loop, where \<open>addedPaths\<close>, hence \<open>newPaths\<close>, is not empty.
\<close>

definition changePaths :: "'d env \<Rightarrow> string list \<Rightarrow> string list \<Rightarrow> (unit, 'd) prog" where
  "changePaths env oldPaths newPaths =
     (if oldPaths = [] then ret ()
      else
        let removedPaths = filter (\<lambda>p. p \<notin> set newPaths) oldPaths;
            addedPaths = filter (\<lambda>p. p \<notin> set oldPaths) newPaths
        in bnd (mapM (\<lambda>p. fs_do env (Mkdirp (path_dirname env p))) addedPaths)
          (\<lambda>_. bnd (mapM (\<lambda>i.
                    if i < length addedPaths
                    then bnd (ignore (removedPaths ! i))
                         (\<lambda>_. bnd (ignore (addedPaths ! i))
                         (\<lambda>_. fs_do env (Rename (removedPaths ! i) (addedPaths ! i))))
                    else bnd (ignore (removedPaths ! i))
                         (\<lambda>_. fs_do env (Remove (removedPaths ! i))))
                  [0..<length removedPaths])
          (\<lambda>_. bnd (mapM (\<lambda>i. bnd (ignore (addedPaths ! i))
                               (\<lambda>_. fs_do env (Copy (newPaths ! 0) (addedPaths ! i))))
                  [length removedPaths..<length addedPaths])
          (\<lambda>_. ret ()))))"

subsection \<open>Reconciler: one remote change\<close>

text \<open>\<open>logChange(type, yesOrNo)\<close> counts the change if it happened; it returns \<open>yesOrNo\<close>.\<close>

definition logChange :: "string \<Rightarrow> bool \<Rightarrow> 'd world \<Rightarrow> 'd world" where
  "logChange type' yesOrNo w =
     (if yesOrNo
      then w\<lparr>lastChanges := map_set (lastChanges w) type'
                 ((case map_of (lastChanges w) type' of None \<Rightarrow> 0 | Some c \<Rightarrow> c) + 1)\<rparr>
      else w)"

text \<open>
  \<open>handleChange\<close>.  A change that is neither marked removed nor carries a file makes
  \<open>change.file.trashed\<close> throw.  In the branch "wasn't in main folder", \<open>logChange\<close> is
  handed the promise of \<open>addFileLocally\<close>, which is truthy: the addition is counted
  whatever it yields, and the caller gets what the promise settles to.  \<open>sort()\<close> orders
  strings as \<open>sort\<close> does here.
\<close>

definition handleChange :: "'d env \<Rightarrow> nat \<Rightarrow> change \<Rightarrow> (bool, 'd) prog" where
  "handleChange env n change =
     (let removal = bnd (removeFileLocally env n (fileId change))
                        (\<lambda>r. bnd (modify (logChange ''removed'' r)) (\<lambda>_. ret r))
      in if removed change then removal
      else case file_ch change of
        None \<Rightarrow> throw TypeError
      | Some newInfo \<Rightarrow>
         if trashed newInfo then removal
         else
           bnd (gets (\<lambda>w. fileInfo w (fileId change)))
             (\<lambda>known. case known of
                None \<Rightarrow> bnd (addFileLocally env n newInfo)
                            (\<lambda>r. bnd (modify (logChange ''added'' r)) (\<lambda>_. ret r))
              | Some oldInfo \<Rightarrow>
                 bnd (storeFileInfo env n newInfo)
                   (\<lambda>_. if noChange oldInfo newInfo then ret False
                    else bnd (getPaths env n (Some oldInfo))
                      (\<lambda>oldPaths. bnd (getPaths env n (Some newInfo))
                      (\<lambda>newPaths.
                         if newPaths = [] \<and> oldPaths = [] then ret False
                         else if md5Checksum newInfo \<noteq> md5Checksum oldInfo
                         then bnd (removeFileLocally env n (id_fi oldInfo))
                              (\<lambda>_. bnd (addFileLocally env n newInfo)
                              (\<lambda>_. bnd (modify (logChange ''updated'' True)) (\<lambda>_. ret True)))
                         else if oldPaths = []
                         then bnd (modify (logChange ''added'' True)) (\<lambda>_. addFileLocally env n newInfo)
                         else bnd (gets (\<lambda>w. shouldIgnoreFile w newInfo))
                           (\<lambda>ignored.
                              if ignored then ret False
                              else if deepEqual (sort oldPaths) (sort newPaths) then ret False
                              else bnd (changePaths env (sort oldPaths) (sort newPaths))
                                       (\<lambda>_. ret True)))))))"

subsection \<open>Status, checkpoint and change feed\<close>

definition notifyChanges :: "'d world \<Rightarrow> 'd world" where
  "notifyChanges w =
     (if syncing w \<or> handlingLocalChange w \<or> handlingRemoteChange w then w
      else if \<not> deepEqual [] (lastChanges w)
      then w\<lparr>events := events w @ [Emit_filesChanged (lastChanges w)], lastChanges := []\<rparr>
      else w)"

text \<open>The setter of \<open>handlingRemoteChange\<close>.\<close>

definition set_handlingRemoteChange :: "bool \<Rightarrow> 'd world \<Rightarrow> 'd world" where
  "set_handlingRemoteChange v w =
     (if handlingRemoteChange w = v then w
      else notifyChanges
             (w\<lparr>handlingRemoteChange := v,
                events := events w @ [Emit_syncing (syncing w \<or> handlingLocalChange w \<or> v)]\<rparr>))"

definition snapshot :: "'d world \<Rightarrow> checkpoint" where
  "snapshot w = \<lparr>ck_changeToken = changeToken w, ck_fileInfo = fileInfo w, ck_synced = synced w,
     ck_rootId = rootId w, ck_changesToExecute = changesToExecute w,
     ck_onLocalDrive = onLocalDrive w\<rparr>"

text \<open>
  \<open>save\<close>: insert a document if the object has none yet, then overwrite it with the
  fields of \<open>toSave\<close>.  Its last call, \<open>watchChanges()\<close>, returns at once when the poller
  runs already.
\<close>

definition save :: "'d env \<Rightarrow> (unit, 'd) prog" where
  "save env =
     bnd (gets sync_id)
       (\<lambda>has_id. bnd (if \<not> has_id
                       then bnd (db_call (globals_db_insert env))
                                (\<lambda>_. modify (\<lambda>w. w\<lparr>sync_id := True\<rparr>))
                       else ret ())
       (\<lambda>_. bnd (gets snapshot)
       (\<lambda>saveObject. bnd (db_call (globals_db_update env))
       (\<lambda>_. modify (\<lambda>w. w\<lparr>db := db w @ [saveObject],
                           savedTime := clock env (requests w),
                           changesSinceSave := 0\<rparr>)))))"

text \<open>A token is truthy when it is there and not the empty string.\<close>

definition truthy :: "string option \<Rightarrow> bool" where
  "truthy t = (case t of None \<Rightarrow> False | Some s \<Rightarrow> s \<noteq> [])"


text \<open>
  The loop of \<open>getNewChanges\<close> over the pages of the feed; it ends when a page carries no
  \<open>nextPageToken\<close>, which is up to the service, so it runs on fuel (one unit a page).
\<close>

fun getNewChanges_pages :: "'d env \<Rightarrow> nat \<Rightarrow> string option \<Rightarrow> change list \<Rightarrow> (change list, 'd) prog" where
  "getNewChanges_pages env k None changes' = ret changes'"
| "getNewChanges_pages env 0 (Some t) changes' = (if t = [] then ret changes' else diverge)"
| "getNewChanges_pages env (Suc k) (Some t) changes' =
     (if t = [] then ret changes'
      else bnd (changes_list env t)
             (\<lambda>result.
                bnd (if truthy (newStartPageToken result)
                     then modify (\<lambda>w. w\<lparr>changeToken := newStartPageToken result\<rparr>)
                     else ret ())
                (\<lambda>_. getNewChanges_pages env k (nextPageToken result)
                       (changes' @ changes result))))"

definition getNewChanges :: "'d env \<Rightarrow> nat \<Rightarrow> (change list, 'd) prog" where
  "getNewChanges env k = bnd (gets changeToken) (\<lambda>pageToken. getNewChanges_pages env k pageToken [])"

section \<open>What the reconciler leaves alone\<close>

text \<open>
  A relation between the world before and after a call that holds of every step and is
  reflexive and transitive holds of the whole call.  \<open>frame\<close> says that the control
  fields of the object (token, pending changes, flags, checkpoint bookkeeping) and the
  database are as they were and that no request is forgotten; \<open>quiet\<close> says further
  that the disk and the event log are untouched.
\<close>

definition frame :: "'d world \<Rightarrow> 'd world \<Rightarrow> bool" where
  "frame w w' \<longleftrightarrow>
     rootId w' = rootId w \<and> folder w' = folder w \<and> changeToken w' = changeToken w \<and>
     changesToExecute w' = changesToExecute w \<and> closed w' = closed w \<and>
     syncing w' = syncing w \<and> synced w' = synced w \<and>
     handlingRemoteChange w' = handlingRemoteChange w \<and>
     handlingLocalChange w' = handlingLocalChange w \<and> sync_id w' = sync_id w \<and>
     onLocalDrive w' = onLocalDrive w \<and> db w' = db w \<and>
     changesSinceSave w' = changesSinceSave w \<and> savedTime w' = savedTime w \<and>
     requests w \<le> requests w'"

definition quiet :: "'d world \<Rightarrow> 'd world \<Rightarrow> bool" where
  "quiet w w' \<longleftrightarrow> frame w w' \<and> disk w' = disk w \<and> events w' = events w \<and> lastChanges w' = lastChanges w"

definition preserves :: "('d world \<Rightarrow> 'd world \<Rightarrow> bool) \<Rightarrow> ('a, 'd) prog \<Rightarrow> bool" where
  "preserves R m = (\<forall>w. R w (snd (m w)))"

definition preorder :: "('d world \<Rightarrow> 'd world \<Rightarrow> bool) \<Rightarrow> bool" where
  "preorder R \<longleftrightarrow> (\<forall>w. R w w) \<and> (\<forall>a b c. R a b \<longrightarrow> R b c \<longrightarrow> R a c)"

lemma preorder_frame: "preorder frame" by (simp add: preorder_def frame_def)
lemma preorder_quiet: "preorder quiet" by (simp add: preorder_def quiet_def frame_def)

lemma preorder_refl: "preorder R \<Longrightarrow> R w w" by (simp add: preorder_def)
lemma preorder_trans: "preorder R \<Longrightarrow> R a b \<Longrightarrow> R b c \<Longrightarrow> R a c" unfolding preorder_def by blast

lemma preserves_fun: "(\<And>w. R w (snd (m w))) \<Longrightarrow> preserves R m"
  by (simp add: preserves_def)

lemma preservesD: "preserves R m \<Longrightarrow> R w (snd (m w))"
  by (simp add: preserves_def)

lemma preservesD2: "preserves R m \<Longrightarrow> m w = (r, w') \<Longrightarrow> R w w'"
  by (auto simp add: preserves_def dest: spec[of _ w])

lemma preserves_mono:
  "(\<And>a b. R a b \<Longrightarrow> S a b) \<Longrightarrow> preserves R m \<Longrightarrow> preserves S m"
  by (simp add: preserves_def)

lemma preserves_ret: "preorder R \<Longrightarrow> preserves R (ret x)"
  by (simp add: preserves_def ret_def preorder_refl)

lemma preserves_throw: "preorder R \<Longrightarrow> preserves R (throw x)"
  by (simp add: preserves_def throw_def preorder_refl)

lemma preserves_diverge: "preorder R \<Longrightarrow> preserves R diverge"
  by (simp add: preserves_def diverge_def preorder_refl)

lemma preserves_gets: "preorder R \<Longrightarrow> preserves R (gets f)"
  by (simp add: preserves_def gets_def preorder_refl)

lemma preserves_modify: "(\<And>w. R w (g w)) \<Longrightarrow> preserves R (modify g)"
  by (simp add: preserves_def modify_def)

lemma preserves_bnd:
  assumes "preorder R" "preserves R m" "\<And>x. preserves R (f x)"
  shows "preserves R (bnd m f)"
proof (rule preserves_fun)
  fix w
  obtain r w1 where m: "m w = (r, w1)" by (cases "m w")
  have 1: "R w w1" using preservesD[OF assms(2), of w] m by simp
  show "R w (snd (bnd m f w))"
  proof (cases r)
    case (Return x)
    have "R w1 (snd (f x w1))" using assms(3) by (rule preservesD)
    then show ?thesis using 1 m Return preorder_trans[OF assms(1)] by (auto simp add: bnd_def)
  qed (use 1 m in \<open>simp_all add: bnd_def\<close>)
qed

lemma preserves_try_catch:
  assumes "preorder R" "preserves R m" "\<And>x. preserves R (h x)"
  shows "preserves R (try_catch m h)"
proof (rule preserves_fun)
  fix w
  obtain r w1 where m: "m w = (r, w1)" by (cases "m w")
  have 1: "R w w1" using preservesD[OF assms(2), of w] m by simp
  show "R w (snd (try_catch m h w))"
  proof (cases r)
    case (Throw x)
    have "R w1 (snd (h x w1))" using assms(3) by (rule preservesD)
    then show ?thesis using 1 m Throw preorder_trans[OF assms(1)] by (auto simp add: try_catch_def)
  qed (use 1 m in \<open>simp_all add: try_catch_def\<close>)
qed

lemma preserves_unhandled:
  assumes "preserves R m"
  shows "preserves R (unhandled m)"
proof (rule preserves_fun)
  fix w
  obtain r w1 where m: "m w = (r, w1)" by (cases "m w")
  have 1: "R w w1" using preservesD[OF assms, of w] m by simp
  show "R w (snd (unhandled m w))"
    using 1 m by (cases r) (simp_all add: unhandled_def)
qed

lemma preserves_tryTwice:
  assumes "preorder R" "preserves R m"
  shows "preserves R (tryTwice m)"
  unfolding tryTwice_def
  by (rule preserves_try_catch) (use assms in \<open>auto intro: preserves_throw\<close>)

lemma preserves_mapM:
  assumes "preorder R" "\<And>x. preserves R (f x)"
  shows "preserves R (mapM f xs)"
proof (induction xs)
  case Nil
  show ?case using assms(1) by (simp add: preserves_ret)
next
  case (Cons x xs)
  have "preserves R (bnd (f x) (\<lambda>y. bnd (mapM f xs) (\<lambda>ys. ret (y # ys))))"
    by (intro preserves_bnd preserves_ret assms Cons)
  then show ?case by simp
qed

lemma preserves_if:
  "(c \<Longrightarrow> preserves R a) \<Longrightarrow> (\<not> c \<Longrightarrow> preserves R b) \<Longrightarrow> preserves R (if c then a else b)"
  by simp

lemma preserves_case_option:
  "(x = None \<Longrightarrow> preserves R a) \<Longrightarrow> (\<And>y. x = Some y \<Longrightarrow> preserves R (b y))
   \<Longrightarrow> preserves R (case x of None \<Rightarrow> a | Some y \<Rightarrow> b y)"
  by (cases x) simp_all

lemma preserves_case_list:
  "(x = [] \<Longrightarrow> preserves R a) \<Longrightarrow> (\<And>y ys. x = y # ys \<Longrightarrow> preserves R (b y ys))
   \<Longrightarrow> preserves R (case x of [] \<Rightarrow> a | y # ys \<Rightarrow> b y ys)"
  by (cases x) simp_all

lemma preserves_case_nat:
  "(x = 0 \<Longrightarrow> preserves R a) \<Longrightarrow> (\<And>y. x = Suc y \<Longrightarrow> preserves R (b y))
   \<Longrightarrow> preserves R (case x of 0 \<Rightarrow> a | Suc y \<Rightarrow> b y)"
  by (cases x) simp_all

lemma preserves_let:
  "preserves R (f x) \<Longrightarrow> preserves R (let y = x in f y)"
  by simp

lemmas preserves_intros = preserves_bnd preserves_try_catch preserves_tryTwice preserves_mapM
  preserves_ret preserves_throw preserves_diverge preserves_gets preserves_unhandled
  preserves_if preserves_case_option preserves_case_list preserves_case_nat

lemma quiet_files_get: "preserves quiet (files_get env i)"
  by (simp add: preserves_def files_get_def quiet_def frame_def)

lemma quiet_cache_batch: "preserves quiet (modify (cache_batch b))"
  by (rule preserves_modify) (simp add: cache_batch_def quiet_def frame_def)

lemma quiet_cache_parent: "preserves quiet (modify (cache_parent p r))"
  by (rule preserves_modify) (simp add: cache_parent_def quiet_def frame_def split: option.split)

lemma quiet_store_record: "preserves quiet (modify (store_record i))"
  by (rule preserves_modify) (simp add: store_record_def quiet_def frame_def Let_def)

lemma quiet_index_paths: "preserves quiet (modify (index_paths i ps))"
  by (rule preserves_modify) (simp add: index_paths_def quiet_def frame_def)

lemmas quiet_prims = quiet_files_get quiet_cache_batch quiet_cache_parent quiet_store_record
  quiet_index_paths

lemma quiet_prefetchParents:
  assumes "\<And>ids. preserves quiet (getBatch ids)"
  shows "preserves quiet (prefetchParents getBatch ps)"
  unfolding prefetchParents_def
  by (intro preserves_intros preorder_quiet quiet_prims assms)

lemma quiet_resolveParent:
  assumes "\<And>i. preserves quiet (getInfo i)"
  shows "preserves quiet (resolveParent getInfo p)"
  unfolding resolveParent_def
  by (intro preserves_intros preorder_quiet quiet_prims assms)

lemma quiet_fetchPromise:
  assumes "\<And>i. preserves quiet (getInfo i)"
  shows "preserves quiet (fetchPromise getInfo p)"
  unfolding fetchPromise_def
  by (intro preserves_intros preorder_quiet quiet_prims assms)

lemma quiet_fetch_remote: "preserves quiet (fetch_remote env p)"
  unfolding fetch_remote_def
  by (intro preserves_intros preorder_quiet quiet_prims)

lemma cluster_quiet:
  "(\<forall>x. preserves quiet (getPaths env n x)) \<and>
   (\<forall>x. preserves quiet (getFileInfoBatch env n x)) \<and>
   (\<forall>x. preserves quiet (getFileInfo env n x)) \<and>
   (\<forall>x. preserves quiet (storeFileInfo env n x)) \<and>
   (\<forall>x. preserves quiet (computePaths env n x))"
proof (induction n)
  case 0
  show ?case by (simp add: preserves_diverge preorder_quiet)
next
  case (Suc n)
  have gp: "\<And>x. preserves quiet (getPaths env n x)"
    and gb: "\<And>x. preserves quiet (getFileInfoBatch env n x)"
    and gi: "\<And>x. preserves quiet (getFileInfo env n x)"
    and st: "\<And>x. preserves quiet (storeFileInfo env n x)"
    and cp: "\<And>x. preserves quiet (computePaths env n x)"
    using Suc by auto
  have 1: "preserves quiet (getPaths env (Suc n) x)" for x
    by (cases x; simp only: getPaths.simps)
       (intro preserves_intros preorder_quiet quiet_prefetchParents quiet_resolveParent gb gi gp)+
  have 2: "preserves quiet (getFileInfoBatch env (Suc n) x)" for x
    unfolding getFileInfoBatch.simps
    by (intro preserves_intros preorder_quiet quiet_fetchPromise gi)
  have 3: "preserves quiet (getFileInfo env (Suc n) x)" for x
    unfolding getFileInfo.simps
    by (intro preserves_intros preorder_quiet quiet_fetch_remote st)
  have 4: "preserves quiet (storeFileInfo env (Suc n) x)" for x
    unfolding storeFileInfo.simps
    by (intro preserves_intros preorder_quiet quiet_prims cp)
  have 5: "preserves quiet (computePaths env (Suc n) x)" for x
    unfolding computePaths.simps
    by (intro preserves_intros preorder_quiet quiet_prims gp)
  show ?case using 1 2 3 4 5 by blast
qed

lemma quiet_frame: "quiet a b \<Longrightarrow> frame a b" by (simp add: quiet_def)

lemma quiet_getPaths: "preserves quiet (getPaths env n x)"
  using cluster_quiet[of env n] by blast

lemma frame_getPaths: "preserves frame (getPaths env n x)"
  using cluster_quiet[of env n] by (blast intro: preserves_mono[of quiet frame, OF quiet_frame])

lemma frame_storeFileInfo: "preserves frame (storeFileInfo env n x)"
  using cluster_quiet[of env n] by (blast intro: preserves_mono[of quiet frame, OF quiet_frame])

lemma frame_ignore: "preserves frame (ignore p)"
  unfolding ignore_def by (rule preserves_modify) (simp add: frame_def)

lemma frame_fs_do: "preserves frame (fs_do env op)"
  by (simp add: preserves_def fs_do_def frame_def split: sum.split)

lemma frame_media_get: "preserves frame (media_get env i t)"
  by (simp add: preserves_def media_get_def frame_def split: prod.split option.split)

lemma frame_forget: "preserves frame (modify (forget i ps))"
  by (rule preserves_modify) (simp add: frame_def forget_def)

lemma frame_logChange: "preserves frame (modify (logChange t b))"
  by (rule preserves_modify) (simp add: frame_def logChange_def)

lemmas frame_prims = frame_getPaths frame_storeFileInfo frame_ignore frame_fs_do frame_media_get
  frame_forget frame_logChange

lemma frame_removeEach: "preserves frame (removeEach env ps r)"
proof (induction ps arbitrary: r)
  case Nil
  show ?case by (simp add: preserves_ret preorder_frame)
next
  case (Cons p ps)
  show ?case unfolding removeEach.simps
    by (intro preserves_intros preorder_frame frame_prims Cons)
qed

lemma frame_removeFileLocally: "preserves frame (removeFileLocally env n i)"
  unfolding removeFileLocally_def
  by (intro preserves_intros preorder_frame frame_prims frame_removeEach)

lemma frame_download_once: "preserves frame (download_once env fi t s)"
  unfolding download_once_def
  by (intro preserves_intros preorder_frame frame_prims)

lemma frame_download_content: "preserves frame (download_content env fi s ps)"
  unfolding download_content_def download_guarded_def copy_others_def
  by (intro preserves_intros preorder_frame frame_prims frame_download_once)

lemma frame_downloadFile: "preserves frame (downloadFile env n fi)"
  unfolding downloadFile_def
  by (intro preserves_intros preorder_frame frame_prims frame_download_content)

lemma frame_addFileLocally: "preserves frame (addFileLocally env n fi)"
  unfolding addFileLocally_def
  by (intro preserves_intros preorder_frame frame_prims frame_downloadFile)

lemma frame_changePaths: "preserves frame (changePaths env old new)"
  unfolding changePaths_def Let_def
  by (intro preserves_intros preorder_frame frame_prims)

lemma frame_handleChange: "preserves frame (handleChange env n c)"
  unfolding handleChange_def Let_def
  by (intro preserves_intros preorder_frame frame_prims frame_removeFileLocally
      frame_addFileLocally frame_changePaths)

section \<open>The loop over the pending changes and the poller\<close>

text \<open>
  \<open>handleChanges\<close> takes the pending changes ten at a time.  The applications of a
  window are started together in the source and run here one after the other;
  \<open>applyNext\<close> is the function mapped over the window.  The loop ends because a window
  takes at least one change off the queue and applying changes adds none.
\<close>

definition pending :: "'d world \<Rightarrow> change list" where
  "pending w = (case changesToExecute w of None \<Rightarrow> [] | Some cs \<Rightarrow> cs)"

definition applyNext :: "'d env \<Rightarrow> nat \<Rightarrow> change \<Rightarrow> (unit, 'd) prog" where
  "applyNext env n nextChange =
     bnd (handleChange env n nextChange)
         (\<lambda>changed. if changed then save env
                     else modify (\<lambda>w. w\<lparr>changesSinceSave := changesSinceSave w + 1\<rparr>))"

definition shiftWindow :: "(change list, 'd) prog" where
  "shiftWindow =
     bnd (gets pending)
         (\<lambda>q. bnd (modify (\<lambda>w. w\<lparr>changesToExecute := Some (drop 10 q)\<rparr>)) (\<lambda>_. ret (take 10 q)))"

definition applyWindow :: "'d env \<Rightarrow> nat \<Rightarrow> (unit list, 'd) prog" where
  "applyWindow env n =
     bnd (modify (set_handlingRemoteChange True))
         (\<lambda>_. bnd shiftWindow (\<lambda>nextChangeQueue. mapM (applyNext env n) nextChangeQueue))"

definition sameq :: "'d world \<Rightarrow> 'd world \<Rightarrow> bool" where
  "sameq w w' \<longleftrightarrow> changesToExecute w' = changesToExecute w \<and> closed w' = closed w"

lemma preorder_sameq: "preorder sameq" by (simp add: preorder_def sameq_def)

lemma frame_sameq: "frame a b \<Longrightarrow> sameq a b" by (simp add: frame_def sameq_def)

lemma sameq_db_call: "preserves sameq (db_call f)"
  by (simp add: preserves_def db_call_def sameq_def)

lemma sameq_save: "preserves sameq (save env)"
  unfolding save_def
  by (intro preserves_intros preorder_sameq sameq_db_call preserves_modify) (simp_all add: sameq_def)

lemma sameq_applyNext: "preserves sameq (applyNext env n c)"
  unfolding applyNext_def
  by (intro preserves_intros preorder_sameq sameq_save preserves_modify
        preserves_mono[of frame sameq, OF frame_sameq frame_handleChange])
     (simp_all add: sameq_def)

lemma pending_set_handling: "pending (set_handlingRemoteChange v w) = pending w"
  by (simp add: pending_def set_handlingRemoteChange_def notifyChanges_def)

lemma applyWindow_pending:
  assumes "applyWindow env n w = (r, w')"
  shows "pending w' = drop 10 (pending w)"
proof -
  let ?w1 = "set_handlingRemoteChange True w"
  let ?w2 = "?w1\<lparr>changesToExecute := Some (drop 10 (pending ?w1))\<rparr>"
  have run: "applyWindow env n w = mapM (applyNext env n) (take 10 (pending ?w1)) ?w2"
    by (simp add: applyWindow_def shiftWindow_def bnd_def modify_def gets_def ret_def)
  have "preserves sameq (mapM (applyNext env n) (take 10 (pending ?w1)))"
    by (intro preserves_mapM preorder_sameq sameq_applyNext)
  moreover have "mapM (applyNext env n) (take 10 (pending ?w1)) ?w2 = (r, w')"
    using run assms by simp
  ultimately have "sameq ?w2 w'" by (rule preservesD2)
  then show ?thesis by (simp add: sameq_def pending_def pending_set_handling[unfolded pending_def])
qed

function handleChanges_loop :: "'d env \<Rightarrow> nat \<Rightarrow> (unit, 'd) prog" where
  "handleChanges_loop env n w =
     (if pending w \<noteq> [] \<and> \<not> closed w
      then (case applyWindow env n w of
              (Return _, w') \<Rightarrow> handleChanges_loop env n w'
            | (Throw e, w') \<Rightarrow> (Throw e, w')
            | (Diverge, w') \<Rightarrow> (Diverge, w'))
      else (Return (), w))"
  by pat_completeness auto
termination
proof (relation "measure (\<lambda>(env, n, w). length (pending w))")
  show "wf (measure (\<lambda>(env, n, w). length (pending w)))" by simp
next
  fix env :: "'d env" and n w x1 w' x1a
  assume "pending w \<noteq> [] \<and> \<not> closed w" and "(x1, w') = applyWindow env n w"
  then show "((env, n, w'), env, n, w) \<in> measure (\<lambda>(env, n, w). length (pending w))"
    using applyWindow_pending[of env n w x1 w'] by (cases "pending w") simp_all
qed

definition handleChanges :: "'d env \<Rightarrow> nat \<Rightarrow> (unit, 'd) prog" where
  "handleChanges env n =
     bnd (handleChanges_loop env n)
       (\<lambda>_. bnd (modify (set_handlingRemoteChange False))
       (\<lambda>_. bnd (modify notifyChanges)
       (\<lambda>_. bnd (gets (\<lambda>w. int (clock env (requests w)) - int (savedTime w)))
       (\<lambda>elapsedTime. bnd (gets changesSinceSave)
       (\<lambda>changes'. if elapsedTime > 30000 \<and> changes' > 0 then save env else ret ())))))"

definition handleNewChanges :: "'d env \<Rightarrow> nat \<Rightarrow> nat \<Rightarrow> (bool, 'd) prog" where
  "handleNewChanges env n k =
     bnd (getNewChanges env k)
       (\<lambda>fetched. bnd (modify (\<lambda>w. w\<lparr>changesToExecute := Some fetched\<rparr>))
       (\<lambda>_. bnd (gets (\<lambda>w. length (pending w)))
       (\<lambda>changesCount. bnd (handleChanges env n)
       (\<lambda>_. ret (changesCount > 0)))))"





section \<open>What a round of the poller leaves alone\<close>

text \<open>
  \<open>tok\<close>: the change token is as it was, and the documents written to the database
  since carry it.  \<open>fetching\<close>: nothing but the token and the count of requests has
  moved.  Applying changes and saving keep the first, fetching the feed keeps the second;
  and a loop over the pending changes that returns has emptied the queue.
\<close>

definition tok :: "'d world \<Rightarrow> 'd world \<Rightarrow> bool" where
  "tok w w' \<longleftrightarrow> changeToken w' = changeToken w \<and>
     (\<exists>cks. db w' = db w @ cks \<and> (\<forall>c\<in>set cks. ck_changeToken c = changeToken w))"

definition fetching :: "'d world \<Rightarrow> 'd world \<Rightarrow> bool" where
  "fetching w w' \<longleftrightarrow>
     fileInfo w' = fileInfo w \<and> paths w' = paths w \<and> disk w' = disk w \<and> db w' = db w \<and>
     events w' = events w \<and> onLocalDrive w' = onLocalDrive w \<and>
     changesToExecute w' = changesToExecute w \<and> closed w' = closed w"

lemma tok_refl: "tok w w"
  by (simp add: tok_def)

lemma tok_trans:
  assumes "tok a b" "tok b c"
  shows "tok a c"
proof -
  from assms(1) obtain k1 where k1: "db b = db a @ k1" "\<forall>c\<in>set k1. ck_changeToken c = changeToken a"
    and t1: "changeToken b = changeToken a" unfolding tok_def by blast
  from assms(2) obtain k2 where k2: "db c = db b @ k2" "\<forall>c\<in>set k2. ck_changeToken c = changeToken b"
    and t2: "changeToken c = changeToken b" unfolding tok_def by blast
  have "db c = db a @ (k1 @ k2)" using k1 k2 by simp
  moreover have "\<forall>c\<in>set (k1 @ k2). ck_changeToken c = changeToken a" using k1 k2 t1 by auto
  ultimately show ?thesis unfolding tok_def using t1 t2 by metis
qed

lemma preorder_tok: "preorder tok"
  unfolding preorder_def using tok_refl tok_trans by blast

lemma preorder_fetching: "preorder fetching"
  by (simp add: preorder_def fetching_def)

lemma frame_tok: "frame a b \<Longrightarrow> tok a b"
  by (simp add: frame_def tok_def)

lemma tok_db_call: "preserves tok (db_call f)"
  by (simp add: preserves_def db_call_def tok_def)

lemma tok_save: "preserves tok (save env)"
proof -
  have 1: "preserves tok (modify (\<lambda>w. w\<lparr>sync_id := True\<rparr>))"
    by (rule preserves_modify) (simp add: tok_def)
  have 2: "preserves tok (bnd (gets snapshot)
       (\<lambda>saveObject. bnd (db_call (globals_db_update env))
       (\<lambda>_. modify (\<lambda>w. w\<lparr>db := db w @ [saveObject],
                           savedTime := clock env (requests w),
                           changesSinceSave := 0\<rparr>))))"
    by (simp add: preserves_def bnd_def gets_def db_call_def modify_def tok_def snapshot_def
        split: option.split)
  show ?thesis unfolding save_def
    by (intro preserves_intros preorder_tok tok_db_call 1 2)
qed

lemma tok_applyNext: "preserves tok (applyNext env n c)"
  unfolding applyNext_def
  by (intro preserves_intros preorder_tok tok_save preserves_modify
        preserves_mono[of frame tok, OF frame_tok frame_handleChange])
     (simp_all add: tok_def)

lemma tok_set_handling: "tok w (set_handlingRemoteChange v w)"
  by (simp add: tok_def set_handlingRemoteChange_def notifyChanges_def)

lemma tok_notify: "tok w (notifyChanges w)"
  by (simp add: tok_def notifyChanges_def)

lemma tok_applyWindow: "preserves tok (applyWindow env n)"
  unfolding applyWindow_def shiftWindow_def
  by (intro preserves_intros preorder_tok tok_applyNext preserves_modify tok_set_handling)
     (simp_all add: tok_def)

lemma tok_handleChanges_loop: "tok w (snd (handleChanges_loop env n w))"
proof (induction env n w rule: handleChanges_loop.induct)
  case (1 env n w)
  show ?case
  proof (cases "pending w \<noteq> [] \<and> \<not> closed w")
    case False
    then have "handleChanges_loop env n w = (Return (), w)" by auto
    then show ?thesis by (simp add: tok_refl)
  next
    case True
    obtain o1 w1 where a: "applyWindow env n w = (o1, w1)" by (cases "applyWindow env n w")
    have t1: "tok w w1" using preservesD2[OF tok_applyWindow a] .
    show ?thesis
    proof (cases o1)
      case (Return u)
      have "tok w1 (snd (handleChanges_loop env n w1))"
        using 1[OF True a[symmetric]] Return by simp
      with t1 have "tok w (snd (handleChanges_loop env n w1))"
        using preorder_trans[OF preorder_tok] by blast
      then show ?thesis using True a Return by simp
    qed (use True a t1 in simp_all)
  qed
qed

lemma tok_handleChanges: "preserves tok (handleChanges env n)"
  unfolding handleChanges_def
  by (intro preserves_intros preorder_tok tok_save preserves_modify tok_set_handling tok_notify
        preserves_fun tok_handleChanges_loop)







lemma fetching_changes_list: "preserves fetching (changes_list env t)"
  by (simp add: preserves_def changes_list_def fetching_def)

lemma fetching_getNewChanges_pages: "preserves fetching (getNewChanges_pages env k t acc)"
proof (induction k arbitrary: t acc)
  case 0
  show ?case
    by (cases t; simp only: getNewChanges_pages.simps) (intro preserves_intros preorder_fetching)+
next
  case (Suc k)
  have m: "preserves fetching (modify (\<lambda>w. w\<lparr>changeToken := s\<rparr>))" for s
    by (rule preserves_modify) (simp add: fetching_def)
  show ?case
    by (cases t; simp only: getNewChanges_pages.simps)
       (intro preserves_intros preorder_fetching fetching_changes_list m Suc)+
qed

lemma fetching_getNewChanges: "preserves fetching (getNewChanges env k)"
  unfolding getNewChanges_def
  by (intro preserves_intros preorder_fetching fetching_getNewChanges_pages)

section \<open>A small concrete outside\<close>

text \<open>
  An instance of \<open>env\<close> on which the definitions can be run: the disk is a list of paths
  with the md5 of their content (\<open><dir>\<close> for a directory), removing or renaming a path
  takes what lies below it along, the Drive service answers from fixed tables whatever the
  number of the request, the database never fails, and the clock ticks once a request.
\<close>

type_synonym demo_disk = "(string \<times> string) list"

definition below :: "string \<Rightarrow> string \<Rightarrow> bool" where
  "below a q = (take (Suc (length a)) q = a @ ''/'')"

definition demo_fs :: "fs_op \<Rightarrow> demo_disk \<Rightarrow> error + demo_disk" where
  "demo_fs op d = (case op of
      Remove p \<Rightarrow> Inr (filter (\<lambda>(q, h). q \<noteq> p \<and> \<not> below p q) d)
    | Rename a b \<Rightarrow>
        (if map_of d a = None then Inl (SysError ''ENOENT'')
         else Inr (map (\<lambda>(q, h). if q = a then (b, h)
                                  else if below a q then (b @ drop (length a) q, h)
                                  else (q, h))
                       (filter (\<lambda>(q, h). q \<noteq> b \<and> \<not> below b q) d)))
    | Copy a b \<Rightarrow>
        (case map_of d a of
           None \<Rightarrow> Inl (SysError ''ENOENT'')
         | Some h \<Rightarrow> if a = b then Inl (SysError ''EINVAL'')
                      else Inr ((b, h) # filter (\<lambda>(q, h'). q \<noteq> b) d))
    | Mkdirp p \<Rightarrow> Inr (if map_of d p = None then (p, ''<dir>'') # d else d))"

definition demo_join :: "string \<Rightarrow> string \<Rightarrow> string" where
  "demo_join dir' base = dir' @ ''/'' @ base"

definition demo_dirname :: "string \<Rightarrow> string" where
  "demo_dirname p = rev (tl (dropWhile (\<lambda>c. c \<noteq> CHR ''/'') (rev p)))"

text \<open>
  \<open>demo_env meta content feed\<close>: \<open>meta\<close> answers \<open>files.get\<close>, \<open>content\<close> gives the md5 of
  what a download of a file writes (or nothing, and the download fails with a 500), and
  \<open>feed\<close> answers \<open>changes.list\<close>.
\<close>

definition demo_env ::
  "(string \<Rightarrow> error + file_info) \<Rightarrow> (string \<Rightarrow> string option) \<Rightarrow> (string \<Rightarrow> error + changes_page)
   \<Rightarrow> demo_disk env" where
  "demo_env meta content feed =
     \<lparr>path_join = demo_join,
      path_dirname = demo_dirname,
      fs_access = (\<lambda>p d. map_of d p \<noteq> None),
      md5file = (\<lambda>p d. case map_of d p of None \<Rightarrow> Inl (SysError ''ENOENT'') | Some h \<Rightarrow> Inr h),
      fs_call = demo_fs,
      drive_files_get = (\<lambda>n i. meta i),
      drive_files_get_media = (\<lambda>n i tmpFile d.
         case content i of
           None \<Rightarrow> (Some (HttpError 500), (tmpFile, []) # filter (\<lambda>(q, h). q \<noteq> tmpFile) d)
         | Some h \<Rightarrow> (None, (tmpFile, h) # filter (\<lambda>(q, h'). q \<noteq> tmpFile) d)),
      drive_changes_list = (\<lambda>n t. feed t),
      drive_getStartPageToken = (\<lambda>n. Inr ''1''),
      globals_db_insert = (\<lambda>n. None),
      globals_db_update = (\<lambda>n. None),
      clock = (\<lambda>n. n)\<rparr>"

definition no_meta :: "string \<Rightarrow> error + file_info" where
  "no_meta i = Inl (HttpError 404)"

definition no_content :: "string \<Rightarrow> string option" where
  "no_content i = None"

definition no_feed :: "string \<Rightarrow> error + changes_page" where
  "no_feed t = Inl (HttpError 400)"

text \<open>
  The records of the first scenario of the specification: the root \<open>R\<close>, the folder \<open>F\<close>
  in it, and the file \<open>a.txt\<close> in \<open>F\<close>.
\<close>

definition rec_R :: file_info where
  "rec_R = \<lparr>id_fi = ''R'', name = ''My Drive'', mimeType = ''application/vnd.google-apps.folder'',
     md5Checksum = None, size_fi = None, modifiedTime = ''2024-01-01T00:00:00.000Z'',
     parents = None, trashed = False\<rparr>"

definition rec_F :: file_info where
  "rec_F = \<lparr>id_fi = ''F'', name = ''F'', mimeType = ''application/vnd.google-apps.folder'',
     md5Checksum = None, size_fi = None, modifiedTime = ''2024-01-01T00:00:00.000Z'',
     parents = Some [''R''], trashed = False\<rparr>"

definition rec_a :: file_info where
  "rec_a = \<lparr>id_fi = ''A'', name = ''a.txt'', mimeType = ''text/plain'',
     md5Checksum = Some ''h1'', size_fi = Some 3, modifiedTime = ''2024-01-01T00:00:00.000Z'',
     parents = Some [''F''], trashed = False\<rparr>"

text \<open>
  The engine after the initial sync of that scenario, with the local folder \<open>/d\<close>: the
  three records, their paths, the side cache as the path computation leaves it, the files
  on disk, and one checkpoint written under the token \<open>1\<close>.
\<close>

definition demo_world :: "demo_disk world" where
  "demo_world =
     \<lparr>fileInfo = [''R'' \<mapsto> rec_R, ''F'' \<mapsto> rec_F, ''A'' \<mapsto> rec_a],
      paths = [''/d'' \<mapsto> ''R'', ''/d/F'' \<mapsto> ''F'', ''/d/F/a.txt'' \<mapsto> ''A''],
      onLocalDrive = {},
      parentInfoCache = [''R'' \<mapsto> rec_R, ''F'' \<mapsto> rec_F],
      rootId = Some ''R'',
      folder = ''/d'',
      changeToken = Some ''1'',
      changesToExecute = None,
      closed = False,
      syncing = False,
      synced = True,
      lastChanges = [],
      changesSinceSave = 0,
      savedTime = 0,
      handlingRemoteChange = False,
      handlingLocalChange = False,
      sync_id = True,
      disk = [(''/d'', ''<dir>''), (''/d/F'', ''<dir>''), (''/d/F/a.txt'', ''h1'')],
      events = [],
      requests = 0,
      db = [\<lparr>ck_changeToken = Some ''1'',
             ck_fileInfo = [''R'' \<mapsto> rec_R, ''F'' \<mapsto> rec_F, ''A'' \<mapsto> rec_a],
             ck_synced = True, ck_rootId = Some ''R'', ck_changesToExecute = None,
             ck_onLocalDrive = {}\<rparr>]\<rparr>"

text \<open>An outside whose Drive service knows no file and has no change to report.\<close>

definition env0 :: "demo_disk env" where
  "env0 = demo_env no_meta no_content no_feed"

section \<open>Theorems\<close>

subsection \<open>C8: the no-change predicate\<close>

text \<open>
  C8, as stated, fails: with the same name, the same set of parents and the same
  modifiedTime, two records whose \<open>parents\<close> arrays list the parents in another order are
  not "no change", since \<open>deepEqual\<close> compares arrays element by element.
\<close>

theorem noChange_parent_sets_counterexample:
  "id_fi c8_old = id_fi c8_new \<and>
   \<not> (noChange c8_old c8_new \<longleftrightarrow>
        (name c8_old = name c8_new \<and> parent_set c8_old = parent_set c8_new
         \<and> \<not> modifiedTime c8_new > modifiedTime c8_old))"
  by (simp add: noChange_def deepEqual_def parent_set_def c8_old_def c8_new_def insert_commute)

text \<open>
  C8 (amended): the no-change predicate holds if and only if the two records have the same
  name, the same \<open>parents\<close> array (the same ids in the same order, or both absent), and the
  new modifiedTime is not strictly greater than the old one under string ordering.
\<close>

theorem noChange_iff:
  "noChange oldInfo newInfo \<longleftrightarrow>
     (name oldInfo = name newInfo \<and> parents oldInfo = parents newInfo
      \<and> \<not> modifiedTime newInfo > modifiedTime oldInfo)"
  by (auto simp: noChange_def deepEqual_def)

subsection \<open>C3: the removal handler\<close>

text \<open>
  What the loop of \<open>removeFileLocally\<close> writes to the event log for one path that is on
  disk: the call of \<open>ignore\<close>, then the removal, which succeeded or threw.
\<close>

definition removal_block :: "string \<times> bool \<Rightarrow> event list" where
  "removal_block x = [Ignore (fst x), if snd x then Done (Remove (fst x)) else Failed (Remove (fst x))]"

text \<open>
  A disk on which removing a path that is there succeeds, leaves the path absent and makes
  no absent path appear.
\<close>

definition removes_cleanly :: "'d env \<Rightarrow> bool" where
  "removes_cleanly env \<longleftrightarrow>
     (\<forall>p d. fs_access env p d \<longrightarrow>
        (\<exists>d'. fs_call env (Remove p) d = Inr d' \<and> \<not> fs_access env p d' \<and>
              (\<forall>q. \<not> fs_access env q d \<longrightarrow> \<not> fs_access env q d')))"

text \<open>
  The change "a.txt removed", and the engine of the first scenario when its Materialized
  Set holds the path of a.txt (as a checkpoint written by an earlier run may).
\<close>

definition c3_change :: change where
  "c3_change = \<lparr>removed = True, fileId = ''A'', file_ch = None\<rparr>"

definition c3_world :: "demo_disk world" where
  "c3_world = demo_world\<lparr>onLocalDrive := {''/d/F/a.txt''}\<rparr>"

lemma removal_block_simps:
  "removal_block (p, True) = [Ignore p, Done (Remove p)]"
  "removal_block (p, False) = [Ignore p, Failed (Remove p)]"
  by (simp_all add: removal_block_def)

lemma removeEach_blocks:
  "\<exists>xs w'. removeEach env ps r w = (Return (r \<or> (\<exists>p. (p, True) \<in> set xs)), w')
     \<and> events w' = events w @ concat (map removal_block xs)
     \<and> set (map fst xs) \<subseteq> set ps
     \<and> fileInfo w' = fileInfo w \<and> paths w' = paths w \<and> onLocalDrive w' = onLocalDrive w"
proof (induction ps arbitrary: r w)
  case Nil
  show ?case by (rule exI[of _ "[]"]) (simp add: ret_def)
next
  case (Cons p ps)
  show ?case
  proof (cases "fs_access env p (disk w)")
    case False
    then have step: "removeEach env (p # ps) r w = removeEach env ps r w"
      by (simp add: bnd_def try_catch_def gets_def ret_def)
    from Cons[of r w] obtain xs w' where
      "removeEach env ps r w = (Return (r \<or> (\<exists>p. (p, True) \<in> set xs)), w')"
      "events w' = events w @ concat (map removal_block xs)" "set (map fst xs) \<subseteq> set ps"
      "fileInfo w' = fileInfo w" "paths w' = paths w" "onLocalDrive w' = onLocalDrive w"
      by blast
    then show ?thesis unfolding step by (intro exI[of _ xs] exI[of _ w']) auto
  next
    case True
    let ?wi = "w\<lparr>events := events w @ [Ignore p]\<rparr>"
    show ?thesis
    proof (cases "fs_call env (Remove p) (disk w)")
      case (Inl e)
      let ?w1 = "w\<lparr>events := events w @ [Ignore p, Failed (Remove p)]\<rparr>"
      have step: "removeEach env (p # ps) r w = removeEach env ps r ?w1"
        using True Inl
        by (simp add: bnd_def try_catch_def gets_def ret_def ignore_def modify_def fs_do_def)
      from Cons[of r ?w1] obtain xs w' where
        "removeEach env ps r ?w1 = (Return (r \<or> (\<exists>p. (p, True) \<in> set xs)), w')"
        "events w' = events ?w1 @ concat (map removal_block xs)" "set (map fst xs) \<subseteq> set ps"
        "fileInfo w' = fileInfo ?w1" "paths w' = paths ?w1" "onLocalDrive w' = onLocalDrive ?w1"
        by blast
      then show ?thesis unfolding step
        by (intro exI[of _ "(p, False) # xs"] exI[of _ w']) (auto simp: removal_block_simps)
    next
      case (Inr d)
      let ?w1 = "w\<lparr>disk := d, events := events w @ [Ignore p, Done (Remove p)]\<rparr>"
      have step: "removeEach env (p # ps) r w = removeEach env ps True ?w1"
        using True Inr
        by (simp add: bnd_def try_catch_def gets_def ret_def ignore_def modify_def fs_do_def)
      from Cons[of True ?w1] obtain xs w' where
        "removeEach env ps True ?w1 = (Return (True \<or> (\<exists>p. (p, True) \<in> set xs)), w')"
        "events w' = events ?w1 @ concat (map removal_block xs)" "set (map fst xs) \<subseteq> set ps"
        "fileInfo w' = fileInfo ?w1" "paths w' = paths ?w1" "onLocalDrive w' = onLocalDrive ?w1"
        by blast
      then show ?thesis unfolding step
        by (intro exI[of _ "(p, True) # xs"] exI[of _ w']) (auto simp: removal_block_simps)
    qed
  qed
qed

lemma removeEach_cleanly:
  assumes "removes_cleanly env"
  shows "\<exists>w'. removeEach env ps r w = (Return (r \<or> (\<exists>p\<in>set ps. fs_access env p (disk w))), w')
     \<and> (\<forall>q. \<not> fs_access env q (disk w) \<longrightarrow> \<not> fs_access env q (disk w'))
     \<and> (\<forall>p\<in>set ps. \<not> fs_access env p (disk w'))"
proof (induction ps arbitrary: r w)
  case Nil
  show ?case by (simp add: ret_def)
next
  case (Cons p ps)
  show ?case
  proof (cases "fs_access env p (disk w)")
    case False
    then have step: "removeEach env (p # ps) r w = removeEach env ps r w"
      by (simp add: bnd_def try_catch_def gets_def ret_def)
    from Cons[of r w] False show ?thesis unfolding step by auto
  next
    case True
    with assms obtain d where d: "fs_call env (Remove p) (disk w) = Inr d"
      "\<not> fs_access env p d" "\<forall>q. \<not> fs_access env q (disk w) \<longrightarrow> \<not> fs_access env q d"
      unfolding removes_cleanly_def by blast
    let ?w1 = "w\<lparr>disk := d, events := events w @ [Ignore p, Done (Remove p)]\<rparr>"
    have step: "removeEach env (p # ps) r w = removeEach env ps True ?w1"
      using True d(1)
      by (simp add: bnd_def try_catch_def gets_def ret_def ignore_def modify_def fs_do_def)
    from Cons[of True ?w1] obtain w' where w':
      "removeEach env ps True ?w1 = (Return True, w')"
      "\<forall>q. \<not> fs_access env q d \<longrightarrow> \<not> fs_access env q (disk w')"
      "\<forall>p\<in>set ps. \<not> fs_access env p (disk w')"
      by auto
    show ?thesis unfolding step using w' d True by auto
  qed
qed

lemma map_of_filter_None: "map_of d q = None \<Longrightarrow> map_of (filter P d) q = None"
  by (induction d) auto

lemma map_of_filter_out: "(\<And>h. \<not> P (p, h)) \<Longrightarrow> map_of (filter P d) p = None"
  by (induction d) auto

lemma removes_cleanly_demo: "removes_cleanly (demo_env meta content feed)"
  unfolding removes_cleanly_def
  by (auto simp: demo_env_def demo_fs_def map_of_filter_None map_of_filter_out)

text \<open>
  C3, as stated, fails on the Materialized Set: the handler removes the file from the disk,
  the path from the Path Index and the record from the Metadata Cache, and leaves the entry
  of \<open>onLocalDrive\<close> where it was (\<open>unregisterLocalFile\<close> is called nowhere).
\<close>

theorem remote_removal_keeps_materialized_counterexample:
  "fileInfo c3_world (fileId c3_change) = Some rec_a \<and>
   fst (handleChange env0 5 c3_change c3_world) = Return True \<and>
   map_of (disk (snd (handleChange env0 5 c3_change c3_world))) ''/d/F/a.txt'' = None \<and>
   paths (snd (handleChange env0 5 c3_change c3_world)) ''/d/F/a.txt'' = None \<and>
   ''/d/F/a.txt'' \<in> onLocalDrive (snd (handleChange env0 5 c3_change c3_world))"
  by code_simp

text \<open>
  C3 (amended): for a change marked removed or trashed whose id is in the Metadata Cache,
  with \<open>ps\<close> the paths of the cached record, the handler returns normally; it removes the
  record from the Metadata Cache and the paths \<open>ps\<close> from the Path Index; it leaves the
  Materialized Set as it is; what it does to the outside is, for some of the paths of
  \<open>ps\<close> in turn, a call of \<open>ignore\<close> followed at once by the removal of that path; it
  returns "changed" if and only if one of these removals succeeded.  On a disk where
  removals succeed, none of the paths \<open>ps\<close> is on disk afterwards, and "changed" is
  returned if and only if one of them was on disk before.
\<close>

theorem remote_removal_of_known_id:
  assumes marked: "removed c \<or> (\<exists>f. file_ch c = Some f \<and> trashed f)"
    and known: "fileInfo w (fileId c) = Some fi"
    and walk: "getPaths env n (Some fi) w = (Return ps, w1)"
  shows "\<exists>r w' xs.
      handleChange env n c w = (Return r, logChange ''removed'' r w')
    \<and> removeFileLocally env n (fileId c) w = (Return r, w')
    \<and> fileInfo w' = (fileInfo w1)(fileId c := None)
    \<and> (\<forall>p. paths w' p = (if p \<in> set ps then None else paths w1 p))
    \<and> onLocalDrive (logChange ''removed'' r w') = onLocalDrive w
    \<and> events w' = events w @ concat (map removal_block xs)
    \<and> set (map fst xs) \<subseteq> set ps
    \<and> (r \<longleftrightarrow> (\<exists>p. (p, True) \<in> set xs))
    \<and> (removes_cleanly env \<longrightarrow>
         (\<forall>p\<in>set ps. \<not> fs_access env p (disk w')) \<and> (r \<longleftrightarrow> (\<exists>p\<in>set ps. fs_access env p (disk w))))"
proof -
  let ?w2 = "forget (fileId c) ps w1"
  have q: "quiet w w1" using preservesD2[OF quiet_getPaths walk] .
  have fold_paths: "fold (\<lambda>p m. m(p := None)) qs m p = (if p \<in> set qs then None else m p)"
    for qs and m :: "string \<rightharpoonup> string" and p
    by (induction qs arbitrary: m) auto
  have handle: "handleChange env n c w =
      bnd (removeFileLocally env n (fileId c))
          (\<lambda>r. bnd (modify (logChange ''removed'' r)) (\<lambda>_. ret r)) w"
    using marked by (auto simp: handleChange_def Let_def)
  have rm: "removeFileLocally env n (fileId c) w =
      (if ps = [] then ret False else removeEach env ps False) ?w2"
    using known walk by (simp add: removeFileLocally_def bnd_def gets_def modify_def)
  show ?thesis
  proof (cases "ps = []")
    case True
    have 1: "removeFileLocally env n (fileId c) w = (Return False, ?w2)"
      using rm True by (simp add: ret_def)
    show ?thesis
      apply (rule exI[of _ False], rule exI[of _ ?w2], rule exI[of _ "[]"])
      using 1 q True
      by (simp add: handle bnd_def modify_def ret_def logChange_def forget_def quiet_def frame_def)
  next
    case False
    from removeEach_blocks[of env ps False ?w2] obtain xs w' where xs:
      "removeEach env ps False ?w2 = (Return (False \<or> (\<exists>p. (p, True) \<in> set xs)), w')"
      "events w' = events ?w2 @ concat (map removal_block xs)" "set (map fst xs) \<subseteq> set ps"
      "fileInfo w' = fileInfo ?w2" "paths w' = paths ?w2" "onLocalDrive w' = onLocalDrive ?w2"
      by blast
    let ?r = "\<exists>p. (p, True) \<in> set xs"
    have 1: "removeFileLocally env n (fileId c) w = (Return ?r, w')"
      using rm False xs(1) by simp
    have 2: "handleChange env n c w = (Return ?r, logChange ''removed'' ?r w')"
      using 1 by (simp add: handle bnd_def modify_def ret_def)
    have 3: "removes_cleanly env \<longrightarrow>
         (\<forall>p\<in>set ps. \<not> fs_access env p (disk w')) \<and> (?r \<longleftrightarrow> (\<exists>p\<in>set ps. fs_access env p (disk w)))"
    proof
      assume "removes_cleanly env"
      from removeEach_cleanly[OF this, of ps False ?w2] xs(1) q
      show "(\<forall>p\<in>set ps. \<not> fs_access env p (disk w')) \<and> (?r \<longleftrightarrow> (\<exists>p\<in>set ps. fs_access env p (disk w)))"
        by (auto simp: forget_def quiet_def)
    qed
    show ?thesis
      apply (rule exI[of _ ?r], rule exI[of _ w'], rule exI[of _ xs])
      using 1 2 3 xs(2-6) q
      by (simp add: logChange_def forget_def quiet_def frame_def fold_paths)
  qed
qed

theorem remote_removal_of_known_id_witness:
  "removed c3_change \<and> fileInfo demo_world (fileId c3_change) = Some rec_a \<and>
   fst (getPaths env0 5 (Some rec_a) demo_world) = Return [''/d/F/a.txt''] \<and>
   removes_cleanly env0 \<and>
   (\<exists>r w' xs.
      handleChange env0 5 c3_change demo_world = (Return r, logChange ''removed'' r w')
    \<and> removeFileLocally env0 5 (fileId c3_change) demo_world = (Return r, w')
    \<and> fileInfo w' = (fileInfo (snd (getPaths env0 5 (Some rec_a) demo_world)))(fileId c3_change := None)
    \<and> (\<forall>p. paths w' p = (if p \<in> set [''/d/F/a.txt''] then None
                          else paths (snd (getPaths env0 5 (Some rec_a) demo_world)) p))
    \<and> onLocalDrive (logChange ''removed'' r w') = onLocalDrive demo_world
    \<and> events w' = events demo_world @ concat (map removal_block xs)
    \<and> set (map fst xs) \<subseteq> set [''/d/F/a.txt'']
    \<and> (r \<longleftrightarrow> (\<exists>p. (p, True) \<in> set xs))
    \<and> (\<forall>p\<in>set [''/d/F/a.txt'']. \<not> fs_access env0 p (disk w'))
    \<and> (r \<longleftrightarrow> (\<exists>p\<in>set [''/d/F/a.txt'']. fs_access env0 p (disk demo_world))))"
proof -
  have h1: "removed c3_change \<or> (\<exists>f. file_ch c3_change = Some f \<and> trashed f)"
    by (simp add: c3_change_def)
  have h2: "fileInfo demo_world (fileId c3_change) = Some rec_a"
    by (simp add: c3_change_def demo_world_def)
  have h3: "fst (getPaths env0 5 (Some rec_a) demo_world) = Return [''/d/F/a.txt'']"
    by code_simp
  then have h3': "getPaths env0 5 (Some rec_a) demo_world =
      (Return [''/d/F/a.txt''], snd (getPaths env0 5 (Some rec_a) demo_world))"
    by (simp add: prod_eq_iff)
  have h4: "removes_cleanly env0" unfolding env0_def by (rule removes_cleanly_demo)
  show ?thesis
    using remote_removal_of_known_id[OF h1 h2 h3'] h1 h2 h3 h4 by (simp add: c3_change_def)
qed

subsection \<open>C10: removal of an unknown id\<close>

text \<open>A change that reports the removal of a file the engine has never seen.\<close>

definition c10_change :: change where
  "c10_change = \<lparr>removed = True, fileId = ''Z'', file_ch = None\<rparr>"

text \<open>
  C10: a change marked removed or trashed whose id is not in the Metadata Cache returns
  "no change" and leaves the whole world as it was: the Metadata Cache, the Path Index,
  the Materialized Set and the disk, and everything else.
\<close>

theorem removal_of_unknown_id_is_noop:
  assumes "removed c \<or> (\<exists>f. file_ch c = Some f \<and> trashed f)"
    and "fileInfo w (fileId c) = None"
  shows "handleChange env n c w = (Return False, w)"
  using assms
  by (auto simp: handleChange_def Let_def removeFileLocally_def bnd_def gets_def ret_def
      modify_def logChange_def)

theorem removal_of_unknown_id_is_noop_witness:
  "removed c10_change \<and> fileInfo demo_world (fileId c10_change) = None \<and>
   handleChange env0 0 c10_change demo_world = (Return False, demo_world)"
proof -
  have h1: "removed c10_change \<or> (\<exists>f. file_ch c10_change = Some f \<and> trashed f)"
    by (simp add: c10_change_def)
  have h2: "fileInfo demo_world (fileId c10_change) = None"
    by (simp add: c10_change_def demo_world_def)
  show ?thesis
    using removal_of_unknown_id_is_noop[OF h1 h2, of env0 0] h2 by (simp add: c10_change_def)
qed

subsection \<open>C6: the path delta\<close>

text \<open>
  A folder \<open>B\<close> is created beside \<open>F\<close> on the Drive, and afterwards the file a.txt, which
  lies in \<open>F\<close>, gains \<open>B\<close> as a second parent.  The engine receives the two changes in that
  order.
\<close>

definition rec_B :: file_info where
  "rec_B = \<lparr>id_fi = ''B'', name = ''B'', mimeType = ''application/vnd.google-apps.folder'',
     md5Checksum = None, size_fi = None, modifiedTime = ''2024-02-01T00:00:00.000Z'',
     parents = Some [''R''], trashed = False\<rparr>"

definition rec_a_two :: file_info where
  "rec_a_two = rec_a\<lparr>parents := Some [''F'', ''B''], modifiedTime := ''2024-02-02T00:00:00.000Z''\<rparr>"

definition change_add_B :: change where
  "change_add_B = \<lparr>removed = False, fileId = ''B'', file_ch = Some rec_B\<rparr>"

definition change_gain_parent :: change where
  "change_gain_parent = \<lparr>removed = False, fileId = ''A'', file_ch = Some rec_a_two\<rparr>"

definition with_B :: "demo_disk world" where
  "with_B = snd (handleChange env0 6 change_add_B demo_world)"

definition after_gain :: "demo_disk world" where
  "after_gain = snd (handleChange env0 6 change_gain_parent with_B)"

text \<open>
  What the two applications return and leave behind, the paths of the record of a.txt
  before and after the change, and the order in which \<open>handleChange\<close> hands the new paths
  to \<open>changePaths\<close>.
\<close>

lemma folder_B_added:
  "(case handleChange env0 6 change_add_B demo_world of (r, w) \<Rightarrow>
      r = Return True \<and> fileInfo w ''B'' = Some rec_B \<and> paths w ''/d/B'' = Some ''B'' \<and>
      fileInfo w ''A'' = Some rec_a \<and>
      disk w = [(''/d/B'', ''<dir>''), (''/d'', ''<dir>''), (''/d/F'', ''<dir>''), (''/d/F/a.txt'', ''h1'')] \<and>
      events w = [Ignore ''/d/B'', Done (Mkdirp ''/d/B'')])"
  by code_simp

lemma parent_gained:
  "(case handleChange env0 6 change_gain_parent with_B of (r, w) \<Rightarrow>
      r = Throw (SysError ''ENOENT'') \<and>
      events w = [Ignore ''/d/B'', Done (Mkdirp ''/d/B''), Done (Mkdirp ''/d/B''),
                  Ignore ''/d/B/a.txt'', Failed (Copy ''/d/B/a.txt'' ''/d/B/a.txt'')] \<and>
      fileInfo w ''A'' = Some rec_a_two \<and> paths w ''/d/B/a.txt'' = Some ''A'' \<and>
      disk w = [(''/d/B'', ''<dir>''), (''/d'', ''<dir>''), (''/d/F'', ''<dir>''), (''/d/F/a.txt'', ''h1'')])"
  by code_simp

lemma paths_of_both_records:
  "fst (getPaths env0 6 (Some rec_a) with_B) = Return [''/d/F/a.txt''] \<and>
   fst (getPaths env0 6 (Some rec_a_two) with_B) = Return [''/d/F/a.txt'', ''/d/B/a.txt''] \<and>
   sort [''/d/F/a.txt'', ''/d/B/a.txt''] = [''/d/B/a.txt'', ''/d/F/a.txt'']"
  by code_simp

text \<open>
  Claim C6, at this input: \<open>handleChange\<close> hands \<open>changePaths\<close> the old paths
  \<open>[/d/F/a.txt]\<close> and the sorted new paths \<open>[/d/B/a.txt, /d/F/a.txt]\<close>.  No path is removed,
  \<open>/d/B/a.txt\<close> is the one added path, a surplus one, and \<open>/d/F/a.txt\<close> is the new path that
  survives from the old list, so the added path is to be filled with a copy of
  \<open>/d/F/a.txt\<close>.  The code copies from \<open>newPaths[0]\<close>, which is the added path: it copies
  \<open>/d/B/a.txt\<close>, which does not exist, onto itself, the copy fails, the change is not
  applied, and \<open>/d/B/a.txt\<close> is in the Path Index and not on disk.
\<close>

theorem gained_parent_copies_path_onto_itself:
  "fst (handleChange env0 6 change_add_B demo_world) = Return True \<and>
   fileInfo with_B ''A'' = Some rec_a \<and>
   fst (getPaths env0 6 (Some rec_a) with_B) = Return [''/d/F/a.txt''] \<and>
   fst (getPaths env0 6 (Some rec_a_two) with_B) = Return [''/d/F/a.txt'', ''/d/B/a.txt''] \<and>
   sort [''/d/F/a.txt'', ''/d/B/a.txt''] = [''/d/B/a.txt'', ''/d/F/a.txt''] \<and>
   filter (\<lambda>p. p \<notin> set [''/d/B/a.txt'', ''/d/F/a.txt'']) [''/d/F/a.txt''] = [] \<and>
   filter (\<lambda>p. p \<notin> set [''/d/F/a.txt'']) [''/d/B/a.txt'', ''/d/F/a.txt''] = [''/d/B/a.txt''] \<and>
   fst (handleChange env0 6 change_gain_parent with_B) = Throw (SysError ''ENOENT'') \<and>
   events after_gain = events with_B @
     [Done (Mkdirp ''/d/B''), Ignore ''/d/B/a.txt'', Failed (Copy ''/d/B/a.txt'' ''/d/B/a.txt'')] \<and>
   map_of (disk after_gain) ''/d/F/a.txt'' = Some ''h1'' \<and>
   map_of (disk after_gain) ''/d/B/a.txt'' = None \<and>
   fileInfo after_gain ''A'' = Some rec_a_two \<and>
   paths after_gain ''/d/B/a.txt'' = Some ''A''"
proof -
  from folder_B_added have
    "fst (handleChange env0 6 change_add_B demo_world) = Return True"
    "fileInfo with_B ''A'' = Some rec_a"
    "events with_B = [Ignore ''/d/B'', Done (Mkdirp ''/d/B'')]"
    unfolding with_B_def by (simp_all add: split_beta)
  moreover from parent_gained have
    "fst (handleChange env0 6 change_gain_parent with_B) = Throw (SysError ''ENOENT'')"
    "events after_gain = [Ignore ''/d/B'', Done (Mkdirp ''/d/B''), Done (Mkdirp ''/d/B''),
                  Ignore ''/d/B/a.txt'', Failed (Copy ''/d/B/a.txt'' ''/d/B/a.txt'')]"
    "fileInfo after_gain ''A'' = Some rec_a_two"
    "paths after_gain ''/d/B/a.txt'' = Some ''A''"
    "disk after_gain = [(''/d/B'', ''<dir>''), (''/d'', ''<dir>''), (''/d/F'', ''<dir>''), (''/d/F/a.txt'', ''h1'')]"
    unfolding after_gain_def by (simp_all add: split_beta)
  moreover have
    "filter (\<lambda>p. p \<notin> set [''/d/B/a.txt'', ''/d/F/a.txt'']) [''/d/F/a.txt''] = []"
    "filter (\<lambda>p. p \<notin> set [''/d/F/a.txt'']) [''/d/B/a.txt'', ''/d/F/a.txt''] = [''/d/B/a.txt'']"
    by simp_all
  ultimately show ?thesis using paths_of_both_records by simp
qed

subsection \<open>C7: the downloader\<close>

text \<open>
  The last thing done to the outside was the removal of the temporary file (which
  succeeded or threw).
\<close>

definition tmp_removed_last :: "string \<Rightarrow> 'd world \<Rightarrow> bool" where
  "tmp_removed_last tmpFile w \<longleftrightarrow>
     events w \<noteq> [] \<and>
     (last (events w) = Done (Remove tmpFile) \<or> last (events w) = Failed (Remove tmpFile))"

text \<open>
  The third scenario of the specification: a new file \<open>s.txt\<close> with the two parents \<open>F\<close>
  and root, and an outside that serves its content.
\<close>

definition rec_s :: file_info where
  "rec_s = \<lparr>id_fi = ''S'', name = ''s.txt'', mimeType = ''text/plain'',
     md5Checksum = Some ''h3'', size_fi = Some 2, modifiedTime = ''2024-02-01T00:00:00.000Z'',
     parents = Some [''F'', ''R''], trashed = False\<rparr>"

definition env_s :: "demo_disk env" where
  "env_s = demo_env no_meta (\<lambda>i. if i = ''S'' then Some ''h3'' else None) no_feed"

lemma cleanup_throws:
  assumes "bnd (fs_do env (Remove tmpFile)) (\<lambda>_. throw err) v = (out, v')"
  shows "(\<exists>e. out = Throw e) \<and> tmp_removed_last tmpFile v'"
  using assms
  by (cases "fs_call env (Remove tmpFile) (disk v)")
     (auto simp: bnd_def fs_do_def throw_def tmp_removed_last_def)

lemma download_once_no_throw: "download_once env fi tmpFile savePath v \<noteq> (Throw e, v') \<or>
   (\<exists>d. drive_files_get_media env (requests (snd (ignore savePath v))) (id_fi fi) tmpFile
           (disk (snd (ignore savePath v))) = (Some e, d))"
  by (auto simp: download_once_def bnd_def ignore_def modify_def media_get_def unhandled_def
      fs_do_def split: prod.splits option.splits sum.splits)

lemma try_once_throw:
  assumes "try_catch (download_once env fi tmpFile savePath)
             (\<lambda>err. bnd (fs_do env (Remove tmpFile)) (\<lambda>_. throw err)) v = (Throw e, v')"
  shows "tmp_removed_last tmpFile v'"
proof -
  obtain o1 v1 where a: "download_once env fi tmpFile savePath v = (o1, v1)"
    by (cases "download_once env fi tmpFile savePath v")
  show ?thesis
  proof (cases o1)
    case (Throw e0)
    with a assms have "bnd (fs_do env (Remove tmpFile)) (\<lambda>_. throw e0) v1 = (Throw e :: unit outcome, v')"
      by (simp add: try_catch_def)
    from cleanup_throws[OF this] show ?thesis by simp
  qed (use a assms in \<open>simp_all add: try_catch_def\<close>)
qed

lemma download_guarded_throw:
  assumes "download_guarded env fi tmpFile savePath v = (Throw e, v')"
  shows "tmp_removed_last tmpFile v'"
proof -
  let ?G = "try_catch (download_once env fi tmpFile savePath)
             (\<lambda>err. bnd (fs_do env (Remove tmpFile)) (\<lambda>_. throw err))"
  obtain o1 v1 where a: "?G v = (o1, v1)" by (cases "?G v")
  show ?thesis
  proof (cases o1)
    case (Throw e0)
    show ?thesis
    proof (cases "e0 = SysError ''ECONNRESET''")
      case True
      with a Throw assms have "?G v1 = (Throw e, v')"
        by (simp add: download_guarded_def tryTwice_def try_catch_def)
      then show ?thesis by (rule try_once_throw)
    next
      case False
      with a Throw assms have "v' = v1"
        by (simp add: download_guarded_def tryTwice_def try_catch_def throw_def)
      with a Throw show ?thesis using try_once_throw[of env fi tmpFile savePath v e0 v1] by simp
    qed
  qed (use a assms in \<open>simp_all add: download_guarded_def tryTwice_def try_catch_def\<close>)
qed

lemma download_guarded_ok:
  assumes "drive_files_get_media env (requests v) (id_fi fi) tmpFile (disk v) = (None, d3)"
    and "fs_call env (Rename tmpFile savePath) d3 = Inr d4"
  shows "download_guarded env fi tmpFile savePath v =
     (Return (), v\<lparr>disk := d4, requests := Suc (requests v),
                   events := events v @ [Ignore savePath, Downloaded (id_fi fi) tmpFile,
                                         Done (Rename tmpFile savePath)]\<rparr>)"
  using assms
  by (simp add: download_guarded_def tryTwice_def try_catch_def download_once_def bnd_def
      ignore_def modify_def media_get_def unhandled_def fs_do_def)

lemma copy_others_events:
  "copy_others env savePath otherPaths v = (Return us, v')
   \<Longrightarrow> events v' = events v @ concat (map (\<lambda>q. [Ignore q, Done (Copy savePath q)]) otherPaths)"
proof (induction otherPaths arbitrary: v us)
  case Nil
  then show ?case by (simp add: copy_others_def ret_def)
next
  case (Cons q qs)
  show ?case
  proof (cases "fs_call env (Copy savePath q) (disk v)")
    case (Inl e)
    with Cons.prems show ?thesis
      by (simp add: copy_others_def bnd_def ignore_def modify_def fs_do_def)
  next
    case (Inr d)
    let ?v1 = "v\<lparr>disk := d, events := events v @ [Ignore q, Done (Copy savePath q)]\<rparr>"
    obtain o2 v2 where r: "copy_others env savePath qs ?v1 = (o2, v2)"
      by (cases "copy_others env savePath qs ?v1")
    from Cons.prems Inr r obtain us' where o2: "o2 = Return us'" and v2: "v2 = v'"
      by (cases o2) (auto simp: copy_others_def bnd_def ignore_def modify_def fs_do_def ret_def)
    from Cons.IH[of ?v1 us'] r o2 v2 show ?thesis by simp
  qed
qed

text \<open>
  C7: for a record that is not ignored and not a folder, with \<open>savePath\<close> the first of its
  paths and \<open>otherPaths\<close> the rest, once the directory of \<open>savePath\<close> is made:
  if \<open>savePath\<close> is on disk with the md5 of the record, the downloader only copies
  \<open>savePath\<close> to the other paths; otherwise it first runs the guarded download into the
  temporary file \<open>"." + name + ".tmp"\<close> of the configured folder.  A download that
  succeeds ignores \<open>savePath\<close>, writes the temporary file and renames it onto
  \<open>savePath\<close>.  Whenever the guarded download throws, the last thing it did was to remove
  the temporary file.  The copies are, for each other path in turn, a call of \<open>ignore\<close>
  and a copy from \<open>savePath\<close>.
\<close>

theorem downloadFile_downloadable:
  assumes "\<not> shouldIgnoreFile w fi" and "\<not> isFolder fi"
    and "getPaths env n (Some fi) w = (Return (savePath # otherPaths), w1)"
    and "fs_call env (Mkdirp (path_dirname env savePath)) (disk w1) = Inr d2"
  shows
   "(let tmpFile = path_join env (folder w) (''.'' @ name fi @ ''.tmp'');
         w2 = w1\<lparr>disk := d2, events := events w1 @ [Done (Mkdirp (path_dirname env savePath))]\<rparr>;
         alreadyDownloaded = (fs_access env savePath d2 \<and>
                              (\<exists>h. md5file env savePath d2 = Inr h \<and> Some h = md5Checksum fi))
     in (alreadyDownloaded \<longrightarrow>
           downloadFile env n fi w = bnd (copy_others env savePath otherPaths) (\<lambda>_. ret True) w2)
      \<and> (\<not> alreadyDownloaded \<longrightarrow>
           downloadFile env n fi w =
             bnd (download_guarded env fi tmpFile savePath)
                 (\<lambda>_. bnd (copy_others env savePath otherPaths) (\<lambda>_. ret True)) w2)
      \<and> (\<forall>d3 d4. drive_files_get_media env (requests w2) (id_fi fi) tmpFile d2 = (None, d3)
             \<and> fs_call env (Rename tmpFile savePath) d3 = Inr d4 \<longrightarrow>
           download_guarded env fi tmpFile savePath w2 =
             (Return (), w2\<lparr>disk := d4, requests := Suc (requests w2),
                            events := events w2 @ [Ignore savePath, Downloaded (id_fi fi) tmpFile,
                                                   Done (Rename tmpFile savePath)]\<rparr>))
      \<and> (\<forall>e w3. download_guarded env fi tmpFile savePath w2 = (Throw e, w3) \<longrightarrow>
           tmp_removed_last tmpFile w3)
      \<and> (\<forall>v us v'. copy_others env savePath otherPaths v = (Return us, v') \<longrightarrow>
           events v' = events v @ concat (map (\<lambda>q. [Ignore q, Done (Copy savePath q)]) otherPaths)))"
proof -
  let ?w2 = "w1\<lparr>disk := d2, events := events w1 @ [Done (Mkdirp (path_dirname env savePath))]\<rparr>"
  have q: "quiet w w1" using preservesD2[OF quiet_getPaths assms(3)] .
  then have f: "folder w1 = folder w" by (simp add: quiet_def frame_def)
  have run: "downloadFile env n fi w = download_content env fi savePath otherPaths w1"
    using assms(1-3) by (simp add: downloadFile_def bnd_def gets_def)
  have al: "(case md5file env savePath d2 of Inl e \<Rightarrow> False | Inr h \<Rightarrow> Some h = md5Checksum fi)
      = (\<exists>h. md5file env savePath d2 = Inr h \<and> Some h = md5Checksum fi)"
    by (cases "md5file env savePath d2") auto
  have content: "download_content env fi savePath otherPaths w1 =
      bnd (if \<not> (fs_access env savePath d2 \<and>
                  (\<exists>h. md5file env savePath d2 = Inr h \<and> Some h = md5Checksum fi))
           then download_guarded env fi (path_join env (folder w) (''.'' @ name fi @ ''.tmp'')) savePath
           else ret ())
          (\<lambda>_. bnd (copy_others env savePath otherPaths) (\<lambda>_. ret True)) ?w2"
  proof (cases "fs_access env savePath d2 \<and>
                  (\<exists>h. md5file env savePath d2 = Inr h \<and> Some h = md5Checksum fi)")
    case True
    then show ?thesis
      using assms(4) f al by (simp add: download_content_def bnd_def fs_do_def gets_def)
  next
    case False
    then show ?thesis
      using assms(4) f al by (simp add: download_content_def bnd_def fs_do_def gets_def)
  qed
  show ?thesis
    unfolding Let_def run content
    using download_guarded_ok[of env ?w2 fi _ _ savePath] download_guarded_throw
      copy_others_events[of env savePath otherPaths]
    by (auto simp: bnd_def ret_def)
qed

theorem downloadFile_downloadable_witness:
  "\<not> shouldIgnoreFile demo_world rec_s \<and> \<not> isFolder rec_s \<and>
   fst (getPaths env_s 5 (Some rec_s) demo_world) = Return [''/d/F/s.txt'', ''/d/s.txt''] \<and>
   fs_call env_s (Mkdirp (path_dirname env_s ''/d/F/s.txt''))
      (disk (snd (getPaths env_s 5 (Some rec_s) demo_world))) = Inr (disk demo_world) \<and>
   downloadFile env_s 5 rec_s demo_world =
     bnd (download_guarded env_s rec_s ''/d/.s.txt.tmp'' ''/d/F/s.txt'')
         (\<lambda>_. bnd (copy_others env_s ''/d/F/s.txt'' [''/d/s.txt'']) (\<lambda>_. ret True))
         ((snd (getPaths env_s 5 (Some rec_s) demo_world))
            \<lparr>disk := disk demo_world,
             events := events (snd (getPaths env_s 5 (Some rec_s) demo_world)) @ [Done (Mkdirp ''/d/F'')]\<rparr>) \<and>
   fst (downloadFile env_s 5 rec_s demo_world) = Return True \<and>
   events (snd (downloadFile env_s 5 rec_s demo_world)) =
     [Done (Mkdirp ''/d/F''), Ignore ''/d/F/s.txt'', Downloaded ''S'' ''/d/.s.txt.tmp'',
      Done (Rename ''/d/.s.txt.tmp'' ''/d/F/s.txt''), Ignore ''/d/s.txt'',
      Done (Copy ''/d/F/s.txt'' ''/d/s.txt'')] \<and>
   disk (snd (downloadFile env_s 5 rec_s demo_world)) =
     [(''/d/s.txt'', ''h3''), (''/d/F/s.txt'', ''h3''), (''/d'', ''<dir>''),
      (''/d/F'', ''<dir>''), (''/d/F/a.txt'', ''h1'')]"
proof -
  let ?w1 = "snd (getPaths env_s 5 (Some rec_s) demo_world)"
  have h1: "\<not> shouldIgnoreFile demo_world rec_s" by code_simp
  have h2: "\<not> isFolder rec_s" by code_simp
  have h3: "fst (getPaths env_s 5 (Some rec_s) demo_world) = Return [''/d/F/s.txt'', ''/d/s.txt'']"
    by code_simp
  then have h3': "getPaths env_s 5 (Some rec_s) demo_world = (Return (''/d/F/s.txt'' # [''/d/s.txt'']), ?w1)"
    by (simp add: prod_eq_iff)
  have h4: "fs_call env_s (Mkdirp (path_dirname env_s ''/d/F/s.txt'')) (disk ?w1) = Inr (disk demo_world)"
    by code_simp
  have na: "\<not> fs_access env_s ''/d/F/s.txt'' (disk demo_world)" by code_simp
  have dir: "path_dirname env_s ''/d/F/s.txt'' = ''/d/F''" by code_simp
  have tmp: "path_join env_s (folder demo_world) (''.'' @ name rec_s @ ''.tmp'') = ''/d/.s.txt.tmp''"
    by code_simp
  have eq: "downloadFile env_s 5 rec_s demo_world =
     bnd (download_guarded env_s rec_s ''/d/.s.txt.tmp'' ''/d/F/s.txt'')
         (\<lambda>_. bnd (copy_others env_s ''/d/F/s.txt'' [''/d/s.txt'']) (\<lambda>_. ret True))
         (?w1\<lparr>disk := disk demo_world, events := events ?w1 @ [Done (Mkdirp ''/d/F'')]\<rparr>)"
    using downloadFile_downloadable[OF h1 h2 h3' h4] na
    by (simp add: Let_def dir tmp del: append.simps)
  have r: "fst (downloadFile env_s 5 rec_s demo_world) = Return True" by code_simp
  have e: "events (snd (downloadFile env_s 5 rec_s demo_world)) =
     [Done (Mkdirp ''/d/F''), Ignore ''/d/F/s.txt'', Downloaded ''S'' ''/d/.s.txt.tmp'',
      Done (Rename ''/d/.s.txt.tmp'' ''/d/F/s.txt''), Ignore ''/d/s.txt'',
      Done (Copy ''/d/F/s.txt'' ''/d/s.txt'')]" by code_simp
  have d: "disk (snd (downloadFile env_s 5 rec_s demo_world)) =
     [(''/d/s.txt'', ''h3''), (''/d/F/s.txt'', ''h3''), (''/d'', ''<dir>''),
      (''/d/F'', ''<dir>''), (''/d/F/a.txt'', ''h1'')]" by code_simp
  show ?thesis using h1 h2 h3 h4 eq r e d by blast
qed

subsection \<open>C5: the polling interval\<close>





subsection \<open>C1: the change token\<close>

text \<open>
  The order of the service on tokens, \<open>le\<close>, lifted to a token that may be absent.
\<close>

definition token_le :: "(string \<Rightarrow> string \<Rightarrow> bool) \<Rightarrow> string option \<Rightarrow> string option \<Rightarrow> bool" where
  "token_le le a b = (case a of None \<Rightarrow> True
                      | Some x \<Rightarrow> (case b of None \<Rightarrow> False | Some y \<Rightarrow> le x y))"

text \<open>
  The service never answers a page with a token below the one it was asked with.
\<close>

definition feed_monotone :: "(string \<Rightarrow> string \<Rightarrow> bool) \<Rightarrow> 'd env \<Rightarrow> bool" where
  "feed_monotone le env \<longleftrightarrow>
     (\<forall>n t page s. drive_changes_list env n t = Inr page \<longrightarrow>
        (nextPageToken page = Some s \<or> newStartPageToken page = Some s) \<longrightarrow> le t s)"

text \<open>
  The pages the service answers with, one after the other, to a reader that starts at the
  page token \<open>pageToken\<close> with request number \<open>n\<close> and follows \<open>nextPageToken\<close>, up to
  the first page without one, the first failure, or \<open>k\<close> pages.
\<close>

fun pages_answered :: "'d env \<Rightarrow> nat \<Rightarrow> string option \<Rightarrow> nat \<Rightarrow> changes_page list" where
  "pages_answered env k None n = []"
| "pages_answered env 0 (Some t) n = []"
| "pages_answered env (Suc k) (Some t) n =
     (if t = [] then []
      else case drive_changes_list env n t of
             Inl e \<Rightarrow> []
           | Inr page \<Rightarrow> page # pages_answered env k (nextPageToken page) (Suc n))"

text \<open>
  The token of a reader that held \<open>t\<close> and adopts the new start token of every page that
  carries one, at that page: the last new start token among the pages, or \<open>t\<close> when no
  page carries one.
\<close>

definition token_after :: "changes_page list \<Rightarrow> string option \<Rightarrow> string option" where
  "token_after pages t =
     fold (\<lambda>page t. if truthy (newStartPageToken page) then newStartPageToken page else t) pages t"

text \<open>
  The tokens of the checkpoints written so far never decrease, and none is above the token
  the engine holds.
\<close>

definition checkpoints_ordered :: "(string \<Rightarrow> string \<Rightarrow> bool) \<Rightarrow> 'd world \<Rightarrow> bool" where
  "checkpoints_ordered le w \<longleftrightarrow>
     sorted_wrt (\<lambda>a b. token_le le (ck_changeToken a) (ck_changeToken b)) (db w) \<and>
     (\<forall>c\<in>set (db w). token_le le (ck_changeToken c) (changeToken w))"

text \<open>
  A change feed that reports, under the token \<open>1\<close>, the removal of a.txt and the new
  start token \<open>2\<close>.
\<close>

definition c1_change :: change where
  "c1_change = \<lparr>removed = True, fileId = ''A'', file_ch = None\<rparr>"

definition page_remove_a :: "string \<Rightarrow> error + changes_page" where
  "page_remove_a t =
     (if t = ''1''
      then Inr \<lparr>nextPageToken = None, newStartPageToken = Some ''2'', changes = [c1_change]\<rparr>
      else Inl (HttpError 400))"

definition env_feed :: "demo_disk env" where
  "env_feed = demo_env no_meta no_content page_remove_a"

lemma token_le_refl: "\<forall>a. le a a \<Longrightarrow> token_le le t t"
  by (simp add: token_le_def split: option.split)

lemma token_le_trans:
  "\<forall>a b c. le a b \<longrightarrow> le b c \<longrightarrow> le a c \<Longrightarrow> token_le le r s \<Longrightarrow> token_le le s t \<Longrightarrow> token_le le r t"
  by (auto simp: token_le_def split: option.splits)

lemma pages_token:
  assumes tr: "\<forall>a b c. le a b \<longrightarrow> le b c \<longrightarrow> le a c" and feed: "feed_monotone le env"
  shows "token_le le (Some c0) (changeToken w) \<Longrightarrow> (\<forall>t. pageToken = Some t \<longrightarrow> le c0 t)
     \<Longrightarrow> token_le le (Some c0) (changeToken (snd (getNewChanges_pages env k pageToken acc w)))"
proof (induction k arbitrary: pageToken acc w)
  case 0
  then show ?case
    by (cases pageToken) (simp_all add: ret_def diverge_def)
next
  case (Suc k)
  show ?case
  proof (cases pageToken)
    case None
    with Suc.prems show ?thesis by (simp add: ret_def)
  next
    case (Some t)
    show ?thesis
    proof (cases "t = []")
      case True
      with Some Suc.prems show ?thesis by (simp add: ret_def)
    next
      case False
      let ?w1 = "w\<lparr>requests := Suc (requests w)\<rparr>"
      show ?thesis
      proof (cases "drive_changes_list env (requests w) t")
        case (Inl e)
        with Some False Suc.prems show ?thesis
          by (simp add: bnd_def changes_list_def)
      next
        case (Inr page)
        have c0t: "le c0 t" using Suc.prems(2) Some by simp
        have nxt: "\<forall>s. nextPageToken page = Some s \<longrightarrow> le c0 s"
          using feed Inr c0t tr unfolding feed_monotone_def by blast
        have nst: "\<forall>s. newStartPageToken page = Some s \<longrightarrow> le c0 s"
          using feed Inr c0t tr unfolding feed_monotone_def by blast
        let ?w2 = "if truthy (newStartPageToken page)
                   then ?w1\<lparr>changeToken := newStartPageToken page\<rparr> else ?w1"
        have tk: "token_le le (Some c0) (changeToken ?w2)"
          using Suc.prems(1) nst by (auto simp: token_le_def truthy_def split: option.splits)
        have step: "getNewChanges_pages env (Suc k) pageToken acc w
            = getNewChanges_pages env k (nextPageToken page) (acc @ changes page) ?w2"
          using Some False Inr by (simp add: bnd_def changes_list_def modify_def ret_def)
        show ?thesis unfolding step by (rule Suc.IH[OF tk nxt])
      qed
    qed
  qed
qed

lemma getNewChanges_token:
  assumes "\<forall>a. le a a" "\<forall>a b c. le a b \<longrightarrow> le b c \<longrightarrow> le a c" "feed_monotone le env"
  shows "token_le le (changeToken w) (changeToken (snd (getNewChanges env k w)))"
proof (cases "changeToken w")
  case None
  then show ?thesis by (simp add: token_le_def)
next
  case (Some c0)
  have "token_le le (Some c0) (changeToken (snd (getNewChanges_pages env k (Some c0) [] w)))"
    by (rule pages_token[OF assms(2,3)]) (use assms(1) Some in \<open>simp_all add: token_le_def\<close>)
  then show ?thesis using Some by (simp add: getNewChanges_def bnd_def gets_def)
qed

lemma pages_adopted:
  "changeToken (snd (getNewChanges_pages env k pageToken acc w))
     = token_after (pages_answered env k pageToken (requests w)) (changeToken w)
   \<and> (\<forall>r. fst (getNewChanges_pages env k pageToken acc w) = Return r
          \<longrightarrow> r = acc @ concat (map changes (pages_answered env k pageToken (requests w))))"
proof (induction k arbitrary: pageToken acc w)
  case 0
  show ?case
    by (cases pageToken) (simp_all add: ret_def diverge_def token_after_def)
next
  case (Suc k)
  show ?case
  proof (cases pageToken)
    case None
    then show ?thesis by (simp add: ret_def token_after_def)
  next
    case (Some t)
    show ?thesis
    proof (cases "t = []")
      case True
      with Some show ?thesis by (simp add: ret_def token_after_def)
    next
      case False
      let ?w1 = "w\<lparr>requests := Suc (requests w)\<rparr>"
      show ?thesis
      proof (cases "drive_changes_list env (requests w) t")
        case (Inl e)
        with Some False show ?thesis
          by (simp add: bnd_def changes_list_def token_after_def)
      next
        case (Inr page)
        let ?w2 = "if truthy (newStartPageToken page)
                   then ?w1\<lparr>changeToken := newStartPageToken page\<rparr> else ?w1"
        have step: "getNewChanges_pages env (Suc k) pageToken acc w
            = getNewChanges_pages env k (nextPageToken page) (acc @ changes page) ?w2"
          using Some False Inr by (simp add: bnd_def changes_list_def modify_def ret_def)
        have pages: "pages_answered env (Suc k) pageToken (requests w)
            = page # pages_answered env k (nextPageToken page) (requests ?w2)"
          using Some False Inr by simp
        have tk: "changeToken ?w2
            = (if truthy (newStartPageToken page) then newStartPageToken page else changeToken w)"
          by simp
        show ?thesis
          unfolding step pages
          using Suc.IH[of "nextPageToken page" "acc @ changes page" ?w2]
          by (simp add: token_after_def)
      qed
    qed
  qed
qed

lemma getNewChanges_adopted:
  "changeToken (snd (getNewChanges env k w))
     = token_after (pages_answered env k (changeToken w) (requests w)) (changeToken w)
   \<and> (\<forall>r. fst (getNewChanges env k w) = Return r
          \<longrightarrow> r = concat (map changes (pages_answered env k (changeToken w) (requests w))))"
  using pages_adopted[of env k "changeToken w" "[]" w]
  by (simp add: getNewChanges_def bnd_def gets_def)

lemma handleNewChanges_tok:
  "tok (snd (getNewChanges env k w)) (snd (handleNewChanges env n k w))"
proof -
  obtain o1 w1 where g: "getNewChanges env k w = (o1, w1)" by (cases "getNewChanges env k w")
  show ?thesis
  proof (cases o1)
    case (Return fetched)
    let ?w2 = "w1\<lparr>changesToExecute := Some fetched\<rparr>"
    have 1: "tok w1 ?w2" by (simp add: tok_def)
    have 2: "tok ?w2 (snd (handleChanges env n ?w2))" using tok_handleChanges by (rule preservesD)
    have "snd (handleNewChanges env n k w) = snd (handleChanges env n ?w2)"
      using g Return
      by (simp add: handleNewChanges_def bnd_def modify_def gets_def ret_def
          split: prod.split outcome.split)
    then show ?thesis using g tok_trans[OF 1 2] by simp
  qed (use g in \<open>simp_all add: handleNewChanges_def bnd_def tok_refl\<close>)
qed

text \<open>
  C1 (amended): in every round of the poller the engine adopts a new start token while it
  fetches the feed, before any fetched change is applied.  After the fetch, whether it
  returns or fails on a later page, the token the engine holds is the new start token of
  the last answered page that carries one (the token it held, when none does), and what
  the fetch returns are the changes of the answered pages; the Metadata Cache, the Path
  Index, the disk, the pending changes and the database are as they were, so no fetched
  change is applied yet.  The fetch moves the token only upwards in the order of the
  service; applying the changes then leaves the token alone, and every checkpoint written
  in the round records the token adopted by the fetch.  So the tokens of successive
  checkpoints never decrease, provided the service never answers with a token below the
  one it was asked with.
\<close>

theorem token_adopted_at_fetch:
  assumes "reflp le" and "transp le"
    and "feed_monotone le env" and "checkpoints_ordered le w"
  shows "(let w1 = snd (getNewChanges env k w); w' = snd (handleNewChanges env n k w);
          pages = pages_answered env k (changeToken w) (requests w)
      in fileInfo w1 = fileInfo w \<and> paths w1 = paths w \<and> disk w1 = disk w \<and> db w1 = db w
       \<and> changesToExecute w1 = changesToExecute w
       \<and> changeToken w1 = token_after pages (changeToken w)
       \<and> (\<forall>fetched. fst (getNewChanges env k w) = Return fetched
             \<longrightarrow> fetched = concat (map changes pages))
       \<and> token_le le (changeToken w) (changeToken w1)
       \<and> changeToken w' = changeToken w1
       \<and> (\<exists>cks. db w' = db w @ cks \<and> (\<forall>c\<in>set cks. ck_changeToken c = changeToken w1))
       \<and> checkpoints_ordered le w')"
proof -
  let ?w1 = "snd (getNewChanges env k w)"
  let ?w' = "snd (handleNewChanges env n k w)"
  have refl: "\<forall>a. le a a" using assms(1) by (auto dest: reflpD)
  have trans: "\<forall>a b c. le a b \<longrightarrow> le b c \<longrightarrow> le a c" using assms(2) by (blast dest: transpD)
  have f: "fetching w ?w1" using fetching_getNewChanges by (rule preservesD)
  have t: "token_le le (changeToken w) (changeToken ?w1)"
    by (rule getNewChanges_token[OF refl trans assms(3)])
  from handleNewChanges_tok[of env k w n] obtain cks where
    tk: "changeToken ?w' = changeToken ?w1" and cks: "db ?w' = db ?w1 @ cks"
      "\<forall>c\<in>set cks. ck_changeToken c = changeToken ?w1"
    unfolding tok_def by blast
  have dbw: "db ?w1 = db w" using f by (simp add: fetching_def)
  let ?R = "\<lambda>a b. token_le le (ck_changeToken a) (ck_changeToken b)"
  have old: "sorted_wrt ?R (db w)" and bound: "\<forall>c\<in>set (db w). token_le le (ck_changeToken c) (changeToken w)"
    using assms(4) by (simp_all add: checkpoints_ordered_def)
  have new: "sorted_wrt ?R cks"
    using cks(2) token_le_refl[of le, OF refl] by (simp add: sorted_wrt_iff_nth_less)
  have cross: "\<forall>a\<in>set (db w). \<forall>b\<in>set cks. ?R a b"
    using bound cks(2) t token_le_trans[of le, OF trans] by metis
  have bound': "\<forall>c\<in>set (db w @ cks). token_le le (ck_changeToken c) (changeToken ?w1)"
    using bound cks(2) t token_le_trans[of le, OF trans] token_le_refl[of le, OF refl] by (metis Un_iff set_append)
  have ord: "checkpoints_ordered le ?w'"
    unfolding checkpoints_ordered_def cks(1) dbw tk
    using old new cross bound' by (simp add: sorted_wrt_append)
  show ?thesis
    unfolding Let_def using f t tk cks dbw ord getNewChanges_adopted[of env k w]
    by (auto simp: fetching_def)
qed

text \<open>
  C1, as stated, fails: \<open>getNewChanges\<close> stores the new start token as soon as the page
  that carries it arrives.  Here the token is already \<open>2\<close> when the change fetched under
  \<open>1\<close> has not been applied (a.txt is still in the cache and on disk), is not even in the
  pending queue, and the only checkpoint is the one written under \<open>1\<close>.
\<close>

theorem token_advances_before_apply_counterexample:
  "changeToken demo_world = Some ''1'' \<and>
   fst (getNewChanges env_feed 3 demo_world) = Return [c1_change] \<and>
   changeToken (snd (getNewChanges env_feed 3 demo_world)) = Some ''2'' \<and>
   fileInfo (snd (getNewChanges env_feed 3 demo_world)) ''A'' = Some rec_a \<and>
   map_of (disk (snd (getNewChanges env_feed 3 demo_world))) ''/d/F/a.txt'' = Some ''h1'' \<and>
   changesToExecute (snd (getNewChanges env_feed 3 demo_world)) = None \<and>
   map ck_changeToken (db (snd (getNewChanges env_feed 3 demo_world))) = [Some ''1'']"
  by code_simp

theorem token_adopted_at_fetch_witness:
  "reflp ((\<le>) :: string \<Rightarrow> string \<Rightarrow> bool) \<and> transp ((\<le>) :: string \<Rightarrow> string \<Rightarrow> bool) \<and>
   feed_monotone (\<le>) env_feed \<and> checkpoints_ordered (\<le>) demo_world \<and>
   changeToken demo_world = Some ''1'' \<and>
   pages_answered env_feed 3 (changeToken demo_world) (requests demo_world)
     = [\<lparr>nextPageToken = None, newStartPageToken = Some ''2'', changes = [c1_change]\<rparr>] \<and>
   fst (getNewChanges env_feed 3 demo_world) = Return [c1_change] \<and>
   changeToken (snd (getNewChanges env_feed 3 demo_world)) = Some ''2'' \<and>
   token_le (\<le>) (changeToken demo_world) (changeToken (snd (getNewChanges env_feed 3 demo_world))) \<and>
   changeToken (snd (handleNewChanges env_feed 5 3 demo_world)) = Some ''2'' \<and>
   map ck_changeToken (db (snd (handleNewChanges env_feed 5 3 demo_world))) = [Some ''1'', Some ''2''] \<and>
   checkpoints_ordered (\<le>) (snd (handleNewChanges env_feed 5 3 demo_world))"
proof -
  have h1: "reflp ((\<le>) :: string \<Rightarrow> string \<Rightarrow> bool)" by (rule reflpI) simp
  have h2: "transp ((\<le>) :: string \<Rightarrow> string \<Rightarrow> bool)" by (rule transpI) simp
  have h3: "feed_monotone (\<le>) env_feed"
    by (auto simp: feed_monotone_def env_feed_def demo_env_def page_remove_a_def split: if_splits)
  have h4: "checkpoints_ordered (\<le>) demo_world"
    by (simp add: checkpoints_ordered_def demo_world_def token_le_def)
  have t: "changeToken (snd (getNewChanges env_feed 3 demo_world)) = Some ''2''" by code_simp
  have c: "changeToken demo_world = Some ''1''" by (simp add: demo_world_def)
  have pg: "pages_answered env_feed 3 (changeToken demo_world) (requests demo_world)
     = [\<lparr>nextPageToken = None, newStartPageToken = Some ''2'', changes = [c1_change]\<rparr>]"
    by code_simp
  have r: "fst (getNewChanges env_feed 3 demo_world) = Return [c1_change]" by code_simp
  have d: "map ck_changeToken (db (snd (handleNewChanges env_feed 5 3 demo_world))) = [Some ''1'', Some ''2'']"
    by code_simp
  from token_adopted_at_fetch[OF h1 h2 h3 h4, of 3 5] have
    a: "token_le (\<le>) (changeToken demo_world) (changeToken (snd (getNewChanges env_feed 3 demo_world)))"
    and b: "changeToken (snd (handleNewChanges env_feed 5 3 demo_world))
              = changeToken (snd (getNewChanges env_feed 3 demo_world))"
    and e: "checkpoints_ordered (\<le>) (snd (handleNewChanges env_feed 5 3 demo_world))"
    unfolding Let_def by blast+
  have b': "changeToken (snd (handleNewChanges env_feed 5 3 demo_world)) = Some ''2''"
    using b t by simp
  show ?thesis
    by (intro conjI h1 h2 h3 h4 c pg r t a b' d e)
qed

subsection \<open>C9: multi-parent fan-out\<close>

text \<open>
  The record a parent id resolves to without a fetch: the side cache first, then the
  Metadata Cache.
\<close>

definition resolve :: "'d world \<Rightarrow> string \<Rightarrow> file_info option" where
  "resolve w p = (case parentInfoCache w p of Some r \<Rightarrow> Some r | None \<Rightarrow> fileInfo w p)"

text \<open>
  \<open>pathsOf\<close> in the words of the specification, for a walk that stays in the caches: the
  root has the local folder as its only path; a record without parents has no path;
  otherwise, for each parent in turn, every path of the resolved parent record is joined
  with the name of the record.  The walk has no answer (\<open>None\<close>) when it meets a parent
  that is in neither cache or when it does not end within the fuel.
\<close>

fun pathsOf :: "'d env \<Rightarrow> 'd world \<Rightarrow> nat \<Rightarrow> file_info option \<Rightarrow> string list option" where
  "pathsOf env w 0 record = None"
| "pathsOf env w (Suc n) None = Some []"
| "pathsOf env w (Suc n) (Some record) =
     (if Some (id_fi record) = rootId w then Some [folder w]
      else case parents record of
        None \<Rightarrow> Some []
      | Some ps \<Rightarrow>
          if \<exists>p\<in>set ps. resolve w p = None \<or> pathsOf env w n (resolve w p) = None then None
          else Some (concat (map (\<lambda>p. map (\<lambda>parentPath. path_join env parentPath (name record))
                                          (the (pathsOf env w n (resolve w p)))) ps)))"

text \<open>
  A record with the two parents \<open>F\<close> and root, as in the third scenario of the
  specification.
\<close>

definition rec_two_parents :: file_info where
  "rec_two_parents = \<lparr>id_fi = ''S2'', name = ''s.txt'', mimeType = ''text/plain'',
     md5Checksum = Some ''h3'', size_fi = Some 2, modifiedTime = ''2024-02-01T00:00:00.000Z'',
     parents = Some [''F'', ''R''], trashed = False\<rparr>"

text \<open>
  Two worlds in which every parent resolves alike and the root and the folder are the same.
\<close>

definition same_view :: "'d world \<Rightarrow> 'd world \<Rightarrow> bool" where
  "same_view w w' \<longleftrightarrow> resolve w' = resolve w \<and> rootId w' = rootId w \<and> folder w' = folder w"

lemma pathsOf_view: "same_view w v \<Longrightarrow> pathsOf env v n x = pathsOf env w n x"
proof (induction n arbitrary: x)
  case 0
  show ?case by simp
next
  case (Suc n)
  show ?case
  proof (cases x)
    case None
    then show ?thesis by simp
  next
    case (Some fi)
    have r: "resolve v = resolve w" "rootId v = rootId w" "folder v = folder w"
      using Suc.prems by (simp_all add: same_view_def)
    show ?thesis unfolding Some
      by (cases "parents fi") (auto simp add: r Suc.IH[OF Suc.prems])
  qed
qed

lemma same_view_refl: "same_view w w" by (simp add: same_view_def)

lemma same_view_trans: "same_view a b \<Longrightarrow> same_view b c \<Longrightarrow> same_view a c"
  by (simp add: same_view_def)

lemma resolveParent_cached:
  assumes "resolve v p = Some r"
  shows "\<exists>v1. resolveParent getInfo p v = (Return (Some r), v1) \<and> same_view v v1"
proof (cases "parentInfoCache v p")
  case (Some c)
  with assms have "c = r" by (simp add: resolve_def)
  with Some show ?thesis
    by (simp add: resolveParent_def bnd_def gets_def ret_def same_view_refl)
next
  case None
  with assms have k: "fileInfo v p = Some r" by (simp add: resolve_def)
  let ?v1 = "v\<lparr>parentInfoCache := (parentInfoCache v)(p \<mapsto> r)\<rparr>"
  have "resolve ?v1 = resolve v"
    using None k by (auto simp: resolve_def fun_eq_iff split: option.split)
  then have "same_view v ?v1" by (simp add: same_view_def)
  moreover have "resolveParent getInfo p v = (Return (Some r), ?v1)"
    using None k by (simp add: resolveParent_def bnd_def gets_def ret_def modify_def cache_parent_def)
  ultimately show ?thesis by blast
qed

lemma prefetch_nothing:
  assumes "\<forall>p\<in>set ps. resolve w p \<noteq> None"
  shows "prefetchParents getBatch ps w = (Return (), w)"
proof -
  have "filter (needsParentFetch w) ps = []"
    using assms by (auto simp: filter_empty_conv needsParentFetch_def resolve_def split: option.splits)
  then show ?thesis by (simp add: prefetchParents_def bnd_def gets_def ret_def)
qed

lemma getPaths_cache_only:
  "pathsOf env w n x = Some ps \<Longrightarrow> \<exists>w'. getPaths env n x w = (Return ps, w') \<and> same_view w w'"
proof (induction n arbitrary: x w ps)
  case 0
  then show ?case by simp
next
  case (Suc n)
  show ?case
  proof (cases x)
    case None
    with Suc.prems show ?thesis by (simp add: ret_def same_view_refl)
  next
    case (Some fi)
    show ?thesis
    proof (cases "Some (id_fi fi) = rootId w")
      case True
      with Suc.prems Some show ?thesis
        by (simp add: bnd_def gets_def same_view_refl)
    next
      case notroot: False
      show ?thesis
      proof (cases "parents fi")
        case None
        with Suc.prems Some notroot show ?thesis
          by (simp add: bnd_def gets_def ret_def same_view_refl)
      next
        case (Some prs)
        let ?join = "\<lambda>parentPath. path_join env parentPath (name fi)"
        let ?body = "\<lambda>parent. bnd (resolveParent (\<lambda>i. getFileInfo env n i) parent)
                           (\<lambda>parentInfo. bnd (getPaths env n parentInfo)
                              (\<lambda>parentPaths. ret (map ?join parentPaths)))"
        from Suc.prems \<open>x = Some fi\<close> notroot Some
        have ok: "\<forall>p\<in>set prs. resolve w p \<noteq> None \<and> pathsOf env w n (resolve w p) \<noteq> None"
          and ps: "ps = concat (map (\<lambda>p. map ?join (the (pathsOf env w n (resolve w p)))) prs)"
          by (auto split: if_splits)
        have loop: "\<forall>p\<in>set qs. resolve w p \<noteq> None \<and> pathsOf env w n (resolve w p) \<noteq> None
            \<Longrightarrow> same_view w v
            \<Longrightarrow> \<exists>v'. mapM ?body qs v
                   = (Return (map (\<lambda>p. map ?join (the (pathsOf env w n (resolve w p)))) qs), v')
                 \<and> same_view w v'" for qs v
        proof (induction qs arbitrary: v)
          case Nil
          then show ?case by (simp add: ret_def)
        next
          case (Cons p qs)
          from Cons.prems(1) obtain r rs where r: "resolve w p = Some r"
            and rs: "pathsOf env w n (Some r) = Some rs" by auto
          have "resolve v p = Some r" using r Cons.prems(2) by (simp add: same_view_def)
          from resolveParent_cached[OF this, of "\<lambda>i. getFileInfo env n i"] obtain v1 where
            v1: "resolveParent (\<lambda>i. getFileInfo env n i) p v = (Return (Some r), v1)" "same_view v v1"
            by blast
          have wv1: "same_view w v1" using same_view_trans[OF Cons.prems(2) v1(2)] .
          have "pathsOf env v1 n (Some r) = Some rs" using pathsOf_view[OF wv1] rs by simp
          from Suc.IH[OF this] obtain v2 where
            v2: "getPaths env n (Some r) v1 = (Return rs, v2)" "same_view v1 v2" by blast
          have wv2: "same_view w v2" using same_view_trans[OF wv1 v2(2)] .
          from Cons.IH[OF _ wv2] Cons.prems(1) obtain v' where
            v': "mapM ?body qs v2
                   = (Return (map (\<lambda>p. map ?join (the (pathsOf env w n (resolve w p)))) qs), v')"
              "same_view w v'" by auto
          have "mapM ?body (p # qs) v
              = (Return (map (\<lambda>p. map ?join (the (pathsOf env w n (resolve w p)))) (p # qs)), v')"
            using v1(1) v2(1) v'(1) r rs by (simp add: bnd_def ret_def)
          with v'(2) show ?case by blast
        qed
        from loop[of prs w] ok same_view_refl obtain w' where
          w': "mapM ?body prs w = (Return (map (\<lambda>p. map ?join (the (pathsOf env w n (resolve w p)))) prs), w')"
            "same_view w w'" by blast
        have pre: "prefetchParents (\<lambda>ids. getFileInfoBatch env n ids) prs w = (Return (), w)"
          using ok by (intro prefetch_nothing) simp
        have "getPaths env (Suc n) (Some fi) w = (Return ps, w')"
          using notroot Some pre w'(1) ps by (simp add: bnd_def gets_def ret_def)
        with w'(2) \<open>x = Some fi\<close> show ?thesis by blast
      qed
    qed
  qed
qed

text \<open>
  C9: for a record that is not the root, whose parents (and their ancestors up to the
  root) resolve in the caches, \<open>getPaths\<close> returns the paths of the resolved parents, in
  the order of the parents, each joined with the name of the record; so their number is
  the sum over the parents of the number of paths \<open>getPaths\<close> returns for the resolved
  parent record.
\<close>

theorem multi_parent_fan_out:
  assumes "Some (id_fi record) \<noteq> rootId w" and "parents record = Some prs"
    and "pathsOf env w (Suc n) (Some record) = Some ps"
  shows "(\<exists>w'. getPaths env (Suc n) (Some record) w = (Return ps, w'))
     \<and> (\<forall>p\<in>set prs. \<exists>r qs w''. resolve w p = Some r
            \<and> getPaths env n (Some r) w = (Return qs, w'') \<and> pathsOf env w n (resolve w p) = Some qs)
     \<and> ps = concat (map (\<lambda>p. map (\<lambda>parentPath. path_join env parentPath (name record))
                                  (the (pathsOf env w n (resolve w p)))) prs)
     \<and> length ps = (\<Sum>p\<leftarrow>prs. length (the (pathsOf env w n (resolve w p))))"
proof -
  from assms have ok: "\<forall>p\<in>set prs. resolve w p \<noteq> None \<and> pathsOf env w n (resolve w p) \<noteq> None"
    and ps: "ps = concat (map (\<lambda>p. map (\<lambda>parentPath. path_join env parentPath (name record))
                                  (the (pathsOf env w n (resolve w p)))) prs)"
    by (auto split: if_splits)
  have 1: "\<exists>w'. getPaths env (Suc n) (Some record) w = (Return ps, w')"
    using getPaths_cache_only[OF assms(3)] by blast
  have 2: "\<forall>p\<in>set prs. \<exists>r qs w''. resolve w p = Some r
            \<and> getPaths env n (Some r) w = (Return qs, w'') \<and> pathsOf env w n (resolve w p) = Some qs"
  proof
    fix p assume "p \<in> set prs"
    with ok obtain r qs where r: "resolve w p = Some r" and qs: "pathsOf env w n (Some r) = Some qs"
      by auto
    from getPaths_cache_only[OF qs] r qs
    show "\<exists>r qs w''. resolve w p = Some r
            \<and> getPaths env n (Some r) w = (Return qs, w'') \<and> pathsOf env w n (resolve w p) = Some qs"
      by auto
  qed
  have 3: "length ps = (\<Sum>p\<leftarrow>prs. length (the (pathsOf env w n (resolve w p))))"
    unfolding ps by (simp add: length_concat comp_def)
  show ?thesis using 1 2 ps 3 by blast
qed

theorem multi_parent_fan_out_witness:
  "Some (id_fi rec_two_parents) \<noteq> rootId demo_world \<and>
   parents rec_two_parents = Some [''F'', ''R''] \<and>
   pathsOf env0 demo_world 3 (Some rec_two_parents) = Some [''/d/F/s.txt'', ''/d/s.txt''] \<and>
   (\<exists>w'. getPaths env0 3 (Some rec_two_parents) demo_world = (Return [''/d/F/s.txt'', ''/d/s.txt''], w')) \<and>
   pathsOf env0 demo_world 2 (resolve demo_world ''F'') = Some [''/d/F''] \<and>
   pathsOf env0 demo_world 2 (resolve demo_world ''R'') = Some [''/d''] \<and>
   length [''/d/F/s.txt'', ''/d/s.txt'']
     = (\<Sum>p\<leftarrow>[''F'', ''R'']. length (the (pathsOf env0 demo_world 2 (resolve demo_world p))))"
proof -
  have h1: "Some (id_fi rec_two_parents) \<noteq> rootId demo_world" by code_simp
  have h2: "parents rec_two_parents = Some [''F'', ''R'']" by code_simp
  have h3: "pathsOf env0 demo_world (Suc 2) (Some rec_two_parents) = Some [''/d/F/s.txt'', ''/d/s.txt'']"
    by code_simp
  have f: "pathsOf env0 demo_world 2 (resolve demo_world ''F'') = Some [''/d/F'']" by code_simp
  have r: "pathsOf env0 demo_world 2 (resolve demo_world ''R'') = Some [''/d'']" by code_simp
  have three: "Suc 2 = 3" by simp
  show ?thesis
    using multi_parent_fan_out[OF h1 h2 h3] h1 h2 h3 f r unfolding three by blast
qed

subsection \<open>C2: the batch fetcher\<close>

text \<open>
  An outside whose Drive service fails every \<open>files.get\<close> with a server error.
\<close>

definition meta_fails :: "string \<Rightarrow> error + file_info" where
  "meta_fails i = Inl (HttpError 500)"

definition env_fail :: "demo_disk env" where
  "env_fail = demo_env meta_fails no_content no_feed"

text \<open>
  C2, on the code: a batch for the cached id \<open>A\<close> and the uncached id \<open>X\<close>.  When the
  fetch of \<open>X\<close> fails with an error that is not a 404, the batch succeeds and its map has
  the entry of \<open>A\<close> and no entry at all for \<open>X\<close>; when the service reports \<open>X\<close> as
  not found, the map holds null for \<open>X\<close>.  The comment above \<open>getFileInfoBatch\<close>
  promises null in both cases.
\<close>

theorem getFileInfoBatch_failed_fetch_has_no_entry:
  "fileInfo demo_world ''X'' = None \<and>
   drive_files_get env_fail 0 ''X'' = Inl (HttpError 500) \<and>
   fst (getFileInfoBatch env_fail 3 [''A'', ''X''] demo_world) = Return [(''A'', Some rec_a)] \<and>
   \<not> map_has [(''A'', Some rec_a)] ''X'' \<and>
   fst (getFileInfoBatch env0 3 [''A'', ''X''] demo_world) = Return [(''X'', None), (''A'', Some rec_a)]"
  by code_simp

subsection \<open>C4: applying a change twice\<close>

text \<open>
  The folder \<open>F\<close> is renamed to \<open>G\<close> on the Drive, and afterwards a subfolder \<open>n\<close> is
  created in it. The engine receives the two changes in that order; the second one is
  applied twice, as happens when the engine stops after applying a change and before the
  checkpoint that drops it from the pending changes.
\<close>

definition rec_F_renamed :: file_info where
  "rec_F_renamed = rec_F\<lparr>name := ''G'', modifiedTime := ''2024-03-01T00:00:00.000Z''\<rparr>"

definition rec_sub :: file_info where
  "rec_sub = \<lparr>id_fi = ''N'', name = ''n'', mimeType = ''application/vnd.google-apps.folder'',
     md5Checksum = None, size_fi = None, modifiedTime = ''2024-03-02T00:00:00.000Z'',
     parents = Some [''F''], trashed = False\<rparr>"

definition change_rename_F :: change where
  "change_rename_F = \<lparr>removed = False, fileId = ''F'', file_ch = Some rec_F_renamed\<rparr>"

definition change_add_sub :: change where
  "change_add_sub = \<lparr>removed = False, fileId = ''N'', file_ch = Some rec_sub\<rparr>"

definition after_rename :: "demo_disk world" where
  "after_rename = snd (handleChange env0 6 change_rename_F demo_world)"

definition applied_once :: "demo_disk world" where
  "applied_once = snd (handleChange env0 6 change_add_sub after_rename)"

definition applied_twice :: "demo_disk world" where
  "applied_twice = snd (handleChange env0 6 change_add_sub applied_once)"

text \<open>
  What each of the three applications returns and leaves behind. After the rename the
  Metadata Cache holds the folder under its new name, while the side cache of parent
  records still holds the record it had taken from the Metadata Cache before:
  \<open>storeFileInfo\<close> drops the side-cache entries of the parents of the record it stores,
  not the entry of the record itself.
\<close>

lemma rename_applied:
  "(case handleChange env0 6 change_rename_F demo_world of (r, w) \<Rightarrow>
      r = Return True \<and> fileInfo w ''F'' = Some rec_F_renamed \<and>
      parentInfoCache w ''F'' = Some rec_F \<and>
      disk w = [(''/d'', ''<dir>''), (''/d/G'', ''<dir>''), (''/d/G/a.txt'', ''h1'')])"
  by code_simp

lemma first_application:
  "(case handleChange env0 6 change_add_sub after_rename of (r, w) \<Rightarrow>
      r = Return True \<and> fileInfo w ''N'' = Some rec_sub \<and>
      map_of (disk w) ''/d/G/n'' = Some ''<dir>'' \<and>
      paths w ''/d/F/n'' = Some ''N'' \<and> paths w ''/d/G/n'' = None)"
  by code_simp

lemma second_application:
  "(case handleChange env0 6 change_add_sub applied_once of (r, w) \<Rightarrow>
      r = Return False \<and> fileInfo w ''N'' = Some rec_sub \<and>
      disk w = disk applied_once \<and>
      paths w ''/d/G/n'' = Some ''N'')"
  by code_simp

text \<open>
  Claim C4, at this input: applying the same change record twice through \<open>handleChange\<close>
  does not leave the state that applying it once leaves. Both applications return, the
  Metadata Cache and the disk are the same after one and after two applications, and the
  disk has the new folder at \<open>/d/G/n\<close>; but after one application the Path Index has no
  entry for \<open>/d/G/n\<close> (the path was computed through the outdated side-cache entry of
  \<open>F\<close>, which the first application then drops), and after two applications it has one.
\<close>

theorem reapply_changes_path_index:
  "parentInfoCache demo_world ''F'' = fileInfo demo_world ''F'' \<and>
   fst (handleChange env0 6 change_rename_F demo_world) = Return True \<and>
   fileInfo after_rename ''F'' = Some rec_F_renamed \<and>
   parentInfoCache after_rename ''F'' = Some rec_F \<and>
   fst (handleChange env0 6 change_add_sub after_rename) = Return True \<and>
   fst (handleChange env0 6 change_add_sub applied_once) = Return False \<and>
   fileInfo applied_twice ''N'' = fileInfo applied_once ''N'' \<and>
   disk applied_twice = disk applied_once \<and>
   map_of (disk applied_once) ''/d/G/n'' = Some ''<dir>'' \<and>
   paths applied_once ''/d/G/n'' = None \<and>
   paths applied_twice ''/d/G/n'' = Some ''N''"
proof -
  have "parentInfoCache demo_world ''F'' = fileInfo demo_world ''F''"
    by (simp add: demo_world_def)
  moreover from rename_applied have
    "fst (handleChange env0 6 change_rename_F demo_world) = Return True"
    "fileInfo after_rename ''F'' = Some rec_F_renamed"
    "parentInfoCache after_rename ''F'' = Some rec_F"
    unfolding after_rename_def by (simp_all add: split_beta)
  moreover from first_application have
    "fst (handleChange env0 6 change_add_sub after_rename) = Return True"
    "fileInfo applied_once ''N'' = Some rec_sub"
    "map_of (disk applied_once) ''/d/G/n'' = Some ''<dir>''"
    "paths applied_once ''/d/G/n'' = None"
    unfolding applied_once_def by (simp_all add: split_beta)
  moreover from second_application have
    "fst (handleChange env0 6 change_add_sub applied_once) = Return False"
    "fileInfo applied_twice ''N'' = Some rec_sub"
    "disk applied_twice = disk applied_once"
    "paths applied_twice ''/d/G/n'' = Some ''N''"
    unfolding applied_twice_def by (simp_all add: split_beta)
  ultimately show ?thesis by simp
qed

end
